theory Spec2Isabelle
  imports Main "HOL-Library.Word"
begin

section \<open>JVMTI raw monitor (prims/jvmtiRawMonitor.cpp)\<close>

subsection \<open>Data model\<close>

text \<open>
  Threads are identified by a number.  A \<open>QNode\<close> lives on the stack of the thread
  that created it and is linked into at most one queue at a time, so a queue is the list
  of the threads whose nodes it links (head of the C list first), and the node's
  \<open>_t_state\<close> is kept with its thread.  \<open>_recursions\<close> is declared \<open>volatile int\<close>
  and \<open>_waiters\<close> \<open>volatile jint\<close> in jvmtiRawMonitor.hpp: 32-bit two's complement,
  \<open>++\<close> and \<open>--\<close> wrap, comparisons are signed.
\<close>

type_synonym tid = nat

datatype TStates = TS_READY | TS_RUN | TS_WAIT | TS_ENTER

datatype retcode = M_OK | M_ILLEGAL_MONITOR_STATE | M_INTERRUPTED

record JvmtiRawMonitor =
  owner :: "tid option"
  recursions :: "32 word"
  entry_list :: "tid list"
  wait_set :: "tid list"
  waiters :: "32 word"

text \<open>
  \<open>simple_enter\<close> is called from four places; the continuation says where it returns to.
\<close>

datatype cont = K_RE_finish | K_RE_loop | K_SW_finish | K_RW_loop

text \<open>
  Program points of a thread inside the monitor code.  A thread is preempted only between
  two program points; the code from one point to the next runs as one step.
\<close>

datatype mpc =
    Idle
  | RE_start
  | RE_after_enter
  | RE_suspend_self
  | RE_finish
  | SE_cas cont
  | SE_enqueue cont
  | SE_park cont
  | RX_start
  | RN_start bool
  | RW_start
  | SW_start
  | SW_interrupt_check
  | SW_park
  | SW_post_check
  | SW_dequeue
  | SW_finish
  | RW_after_wait
  | RW_loop
  | RW_suspended

record mthread =
  is_Java_thread :: bool
  external_suspend :: bool
  interrupted :: bool
  park_event :: bool
  node_t_state :: TStates
  node_notified :: int
  pc :: mpc
  save :: "32 word"
  ret :: retcode
  millis :: int
  result :: "retcode option"

text \<open>
  The whole system: one monitor, the threads, whether a \<open>guarantee\<close> has failed (the VM
  is then gone), and the list of \<open>unpark\<close> calls made so far, in order.
\<close>

record msys =
  mon :: JvmtiRawMonitor
  thr :: "tid \<Rightarrow> mthread"
  vm_aborted :: bool
  unparked :: "tid list"

definition upd_thr :: "tid \<Rightarrow> (mthread \<Rightarrow> mthread) \<Rightarrow> msys \<Rightarrow> msys" where
  "upd_thr t f s = s\<lparr>thr := (thr s)(t := f (thr s t))\<rparr>"

definition set_pc :: "tid \<Rightarrow> mpc \<Rightarrow> msys \<Rightarrow> msys" where
  "set_pc t p s = upd_thr t (\<lambda>x. x\<lparr>pc := p\<rparr>) s"

definition vm_abort :: "msys \<Rightarrow> msys" where
  "vm_abort s = s\<lparr>vm_aborted := True\<rparr>"

definition return_to :: "tid \<Rightarrow> retcode \<Rightarrow> msys \<Rightarrow> msys" where
  "return_to t r s = upd_thr t (\<lambda>x. x\<lparr>pc := Idle, result := Some r\<rparr>) s"

text \<open>\<open>ParkEvent::unpark\<close>: leaves a permit that the next \<open>park\<close> consumes.\<close>

definition unpark :: "tid \<Rightarrow> msys \<Rightarrow> msys" where
  "unpark w s = upd_thr w (\<lambda>x. x\<lparr>park_event := True\<rparr>) (s\<lparr>unparked := unparked s @ [w]\<rparr>)"

subsection \<open>The code that does not block\<close>

text \<open>
  \<open>simple_exit\<close>: \<open>guarantee(_owner == self)\<close>, release the owner, then pop the head
  of \<open>_entry_list\<close>, if any, set its state to \<open>TS_RUN\<close> and unpark it.
\<close>

definition simple_exit :: "tid \<Rightarrow> msys \<Rightarrow> msys" where
  "simple_exit self s =
     (if owner (mon s) \<noteq> Some self then vm_abort s
      else
        let s1 = s\<lparr>mon := (mon s)\<lparr>owner := None\<rparr>\<rparr> in
        (case entry_list (mon s1) of
           [] \<Rightarrow> s1
         | w # rest \<Rightarrow>
             let s2 = s1\<lparr>mon := (mon s1)\<lparr>entry_list := rest\<rparr>\<rparr> in
             if node_t_state (thr s2 w) \<noteq> TS_ENTER then vm_abort s2
             else unpark w (upd_thr w (\<lambda>x. x\<lparr>node_t_state := TS_RUN\<rparr>) s2)))"

text \<open>\<open>enqueue_waiter\<close>: the node is pushed at the head of \<open>_wait_set\<close>.\<close>

definition enqueue_waiter :: "tid \<Rightarrow> msys \<Rightarrow> msys" where
  "enqueue_waiter self s =
     (let s1 = upd_thr self (\<lambda>x. x\<lparr>node_notified := 0, node_t_state := TS_WAIT\<rparr>) s
      in s1\<lparr>mon := (mon s1)\<lparr>wait_set := self # wait_set (mon s1)\<rparr>\<rparr>)"

text \<open>
  \<open>dequeue_waiter\<close>: a node still in state \<open>TS_WAIT\<close> is unlinked from \<open>_wait_set\<close>;
  the search loop runs off the list when the node is not there, which the
  \<open>guarantee(p == &node)\<close> stands for.
\<close>

definition dequeue_waiter :: "tid \<Rightarrow> msys \<Rightarrow> msys" where
  "dequeue_waiter self s =
     (if node_t_state (thr s self) = TS_WAIT then
        (if self \<notin> set (wait_set (mon s)) then vm_abort s
         else upd_thr self (\<lambda>x. x\<lparr>node_t_state := TS_RUN\<rparr>)
                (s\<lparr>mon := (mon s)\<lparr>wait_set := remove1 self (wait_set (mon s))\<rparr>\<rparr>))
      else if node_t_state (thr s self) = TS_RUN then s
      else vm_abort s)"

text \<open>
  The loop of \<open>simple_notify\<close>, over the nodes of \<open>_wait_set\<close> from its head: each node
  is unlinked and set to \<open>TS_RUN\<close>; the event of the node before it is unparked first.
  The result is the event still to unpark after the loop.
\<close>

fun notify_loop :: "bool \<Rightarrow> tid list \<Rightarrow> tid option \<Rightarrow> msys \<Rightarrow> tid option \<times> msys" where
  "notify_loop all [] ev s = (ev, s)"
| "notify_loop all (w # rest) ev s =
     (let s1 = s\<lparr>mon := (mon s)\<lparr>wait_set := rest\<rparr>\<rparr>;
          s2 = (case ev of None \<Rightarrow> s1 | Some e \<Rightarrow> unpark e s1);
          s3 = upd_thr w (\<lambda>x. x\<lparr>node_t_state := TS_RUN\<rparr>) s2
      in if \<not> all then (Some w, s3) else notify_loop all rest (Some w) s3)"

definition simple_notify :: "tid \<Rightarrow> bool \<Rightarrow> msys \<Rightarrow> msys" where
  "simple_notify self all s =
     (if owner (mon s) \<noteq> Some self then vm_abort s
      else if wait_set (mon s) = [] then s
      else (case notify_loop all (wait_set (mon s)) None s of
              (None, s') \<Rightarrow> s'
            | (Some e, s') \<Rightarrow> unpark e s'))"

definition raw_exit :: "tid \<Rightarrow> msys \<Rightarrow> retcode \<times> msys" where
  "raw_exit self s =
     (if Some self \<noteq> owner (mon s) then (M_ILLEGAL_MONITOR_STATE, s)
      else if 0 < sint (recursions (mon s))
        then (M_OK, s\<lparr>mon := (mon s)\<lparr>recursions := recursions (mon s) - 1\<rparr>\<rparr>)
      else (M_OK, simple_exit self s))"

definition raw_notify :: "tid \<Rightarrow> msys \<Rightarrow> retcode \<times> msys" where
  "raw_notify self s =
     (if Some self \<noteq> owner (mon s) then (M_ILLEGAL_MONITOR_STATE, s)
      else (M_OK, simple_notify self False s))"

definition raw_notifyAll :: "tid \<Rightarrow> msys \<Rightarrow> retcode \<times> msys" where
  "raw_notifyAll self s =
     (if Some self \<noteq> owner (mon s) then (M_ILLEGAL_MONITOR_STATE, s)
      else (M_OK, simple_notify self True s))"

text \<open>\<open>Thread::is_interrupted(true)\<close> reads the interrupt state and clears it.\<close>

definition is_interrupted_clear :: "tid \<Rightarrow> msys \<Rightarrow> bool \<times> msys" where
  "is_interrupted_clear t s = (interrupted (thr s t), upd_thr t (\<lambda>x. x\<lparr>interrupted := False\<rparr>) s)"

subsection \<open>The code that blocks, step by step\<close>

text \<open>Where \<open>simple_enter\<close> goes when it returns.\<close>

fun cont_pc :: "cont \<Rightarrow> mpc" where
  "cont_pc K_RE_finish = RE_finish"
| "cont_pc K_RE_loop = RE_after_enter"
| "cont_pc K_SW_finish = SW_finish"
| "cont_pc K_RW_loop = RW_loop"

text \<open>
  One step of thread \<open>self\<close>.  A thread that cannot go on (parked without a permit, its node
  still \<open>TS_ENTER\<close>, suspended in \<open>java_suspend_self\<close>) stays where it is.

  Modelled from the spec: \<open>java_suspend_self\<close>, \<open>is_external_suspend\<close> and
  \<open>handle_special_suspend_equivalent_condition\<close> belong to \<open>JavaThread\<close>, which is not
  among the sources.  The spec has "while \<open>is_externally_suspended(self)\<close>, yield to
  suspension" and "check for and honor a late external-suspension request":
  \<open>java_suspend_self\<close> returns once the thread is no longer externally suspended, and
  \<open>handle_special_suspend_equivalent_condition\<close> answers whether it is.
\<close>

definition mstep :: "tid \<Rightarrow> msys \<Rightarrow> msys" where
  "mstep self s =
    (if vm_aborted s then s else
     let me = thr s self; m = mon s in
     case pc me of
       Idle \<Rightarrow> s
     \<comment> \<open>\<open>raw_enter\<close>: the suspension loop, the \<open>cmpxchg\<close> and the three-way branch on its result\<close>
     | RE_start \<Rightarrow>
         if is_Java_thread me \<and> external_suspend me then s
         else (case owner m of
                 None \<Rightarrow>
                   if recursions m \<noteq> 0 then vm_abort (s\<lparr>mon := m\<lparr>owner := Some self\<rparr>\<rparr>)
                   else return_to self M_OK (s\<lparr>mon := m\<lparr>owner := Some self\<rparr>\<rparr>)
               | Some c \<Rightarrow>
                   if c = self
                   then return_to self M_OK (s\<lparr>mon := m\<lparr>recursions := recursions m + 1\<rparr>\<rparr>)
                   else if \<not> is_Java_thread me then set_pc self (SE_cas K_RE_finish) s
                   else set_pc self (SE_cas K_RE_loop) s)
     \<comment> \<open>\<open>raw_enter\<close>, Java thread, after \<open>simple_enter\<close>: suspended while waiting?\<close>
     | RE_after_enter \<Rightarrow>
         if \<not> external_suspend me then set_pc self RE_finish s
         else set_pc self RE_suspend_self (simple_exit self s)
     | RE_suspend_self \<Rightarrow>
         if external_suspend me then s else set_pc self (SE_cas K_RE_loop) s
     | RE_finish \<Rightarrow>
         if owner m \<noteq> Some self \<or> recursions m \<noteq> 0 then vm_abort s
         else return_to self M_OK s
     \<comment> \<open>\<open>simple_enter\<close>: \<open>replace_if_null(self, &_owner)\<close>\<close>
     | SE_cas k \<Rightarrow>
         if owner m = None then set_pc self (cont_pc k) (s\<lparr>mon := m\<lparr>owner := Some self\<rparr>\<rparr>)
         else set_pc self (SE_enqueue k) s
     \<comment> \<open>\<open>simple_enter\<close>: the node is pushed at the head of \<open>_entry_list\<close> under
         \<open>RawMonitor_lock\<close>, and the owner is tried once more\<close>
     | SE_enqueue k \<Rightarrow>
         let s1 = upd_thr self (\<lambda>x. x\<lparr>park_event := False, node_t_state := TS_ENTER\<rparr>) s;
             s2 = s1\<lparr>mon := m\<lparr>entry_list := self # entry_list m\<rparr>\<rparr>
         in if owner m = None
            then set_pc self (cont_pc k) (s2\<lparr>mon := m\<lparr>owner := Some self\<rparr>\<rparr>)
            else set_pc self (SE_park k) s2
     \<comment> \<open>\<open>simple_enter\<close>: \<open>while (node._t_state == TS_ENTER) park()\<close>, then around the loop\<close>
     | SE_park k \<Rightarrow>
         if node_t_state me = TS_ENTER then s
         else set_pc self (SE_cas k) (upd_thr self (\<lambda>x. x\<lparr>park_event := False\<rparr>) s)
     | RX_start \<Rightarrow> (case raw_exit self s of (r, s') \<Rightarrow> return_to self r s')
     | RN_start all \<Rightarrow>
         (case (if all then raw_notifyAll self s else raw_notify self s) of
            (r, s') \<Rightarrow> return_to self r s')
     \<comment> \<open>\<open>raw_wait\<close> up to the call of \<open>simple_wait\<close>\<close>
     | RW_start \<Rightarrow>
         if Some self \<noteq> owner m then return_to self M_ILLEGAL_MONITOR_STATE s
         else upd_thr self (\<lambda>x. x\<lparr>park_event := False, save := recursions m, ret := M_OK,
                                   pc := SW_start\<rparr>)
                (s\<lparr>mon := m\<lparr>recursions := 0, waiters := waiters m + 1\<rparr>\<rparr>)
     \<comment> \<open>\<open>simple_wait\<close>: the two guarantees, \<open>enqueue_waiter\<close>, \<open>simple_exit\<close>\<close>
     | SW_start \<Rightarrow>
         if owner m \<noteq> Some self \<or> recursions m \<noteq> 0 then vm_abort s
         else upd_thr self (\<lambda>x. x\<lparr>ret := M_OK,
                 pc := (if is_Java_thread me then SW_interrupt_check else SW_park)\<rparr>)
                (simple_exit self (enqueue_waiter self s))
     | SW_interrupt_check \<Rightarrow>
         (case is_interrupted_clear self s of
            (True, s') \<Rightarrow> upd_thr self (\<lambda>x. x\<lparr>ret := M_INTERRUPTED, pc := SW_post_check\<rparr>) s'
          | (False, s') \<Rightarrow> set_pc self SW_park s')
     \<comment> \<open>\<open>park()\<close> or \<open>park(millis)\<close>: returns when there is a permit, and consumes it\<close>
     | SW_park \<Rightarrow>
         if \<not> park_event me then s
         else upd_thr self (\<lambda>x. x\<lparr>park_event := False,
                 pc := (if is_Java_thread me then SW_post_check else SW_dequeue)\<rparr>) s
     | SW_post_check \<Rightarrow>
         (case is_interrupted_clear self s of
            (True, s') \<Rightarrow> upd_thr self (\<lambda>x. x\<lparr>ret := M_INTERRUPTED, pc := SW_dequeue\<rparr>) s'
          | (False, s') \<Rightarrow> set_pc self SW_dequeue s')
     | SW_dequeue \<Rightarrow>
         let s1 = dequeue_waiter self s
         in if vm_aborted s1 then s1 else set_pc self (SE_cas K_SW_finish) s1
     | SW_finish \<Rightarrow>
         if owner m \<noteq> Some self \<or> recursions m \<noteq> 0 then vm_abort s
         else set_pc self RW_after_wait s
     \<comment> \<open>\<open>raw_wait\<close> after \<open>simple_wait\<close>: the count is put back here\<close>
     | RW_after_wait \<Rightarrow>
         let s1 = s\<lparr>mon := m\<lparr>recursions := save me, waiters := waiters m - 1\<rparr>\<rparr>
         in if Some self \<noteq> owner m then vm_abort s1
            else if is_Java_thread me then set_pc self RW_loop s1
            else return_to self (ret me) s1
     \<comment> \<open>\<open>raw_wait\<close>, Java thread: suspended while waiting?\<close>
     | RW_loop \<Rightarrow>
         if \<not> external_suspend me then
           (if Some self \<noteq> owner m then vm_abort s else return_to self (ret me) s)
         else set_pc self RW_suspended (simple_exit self s)
     | RW_suspended \<Rightarrow>
         if external_suspend me then s
         else (case is_interrupted_clear self s of
                 (True, s') \<Rightarrow> upd_thr self (\<lambda>x. x\<lparr>ret := M_INTERRUPTED, pc := SE_cas K_RW_loop\<rparr>) s'
               | (False, s') \<Rightarrow> set_pc self (SE_cas K_RW_loop) s'))"

subsection \<open>Schedules\<close>

datatype mcall = RawEnter | RawExit | RawWait int | RawNotify | RawNotifyAll

text \<open>
  What can happen next: an idle thread calls into the monitor, a thread takes its next step,
  or something outside the monitor code happens to a thread.

  Modelled from the spec: suspension, resumption, interruption and the park timeout come
  from code that is not among the sources.  The spec has "external thread requests
  interrupt", "cooperate with external-suspension" and "\<open>park(millis)\<close>"; interrupting a
  thread sets its interrupt state and unparks it, and a timeout ends a timed park.
\<close>

datatype maction =
    Call tid mcall
  | Step tid
  | Suspend tid
  | Resume tid
  | Interrupt tid
  | Timeout tid

fun entry_pc :: "mcall \<Rightarrow> mpc" where
  "entry_pc RawEnter = RE_start"
| "entry_pc RawExit = RX_start"
| "entry_pc (RawWait ms) = RW_start"
| "entry_pc RawNotify = RN_start False"
| "entry_pc RawNotifyAll = RN_start True"

fun call_millis :: "mcall \<Rightarrow> int" where
  "call_millis (RawWait ms) = ms"
| "call_millis c = 0"

fun do_action :: "maction \<Rightarrow> msys \<Rightarrow> msys" where
  "do_action (Call t c) s =
     (if vm_aborted s \<or> pc (thr s t) \<noteq> Idle then s
      else upd_thr t (\<lambda>x. x\<lparr>pc := entry_pc c, millis := call_millis c, result := None\<rparr>) s)"
| "do_action (Step t) s = mstep t s"
| "do_action (Suspend t) s =
     (if is_Java_thread (thr s t) then upd_thr t (\<lambda>x. x\<lparr>external_suspend := True\<rparr>) s else s)"
| "do_action (Resume t) s = upd_thr t (\<lambda>x. x\<lparr>external_suspend := False\<rparr>) s"
| "do_action (Interrupt t) s =
     (if is_Java_thread (thr s t)
      then upd_thr t (\<lambda>x. x\<lparr>interrupted := True, park_event := True\<rparr>) s else s)"
| "do_action (Timeout t) s =
     (if \<not> vm_aborted s \<and> pc (thr s t) = SW_park \<and> 0 < millis (thr s t)
      then upd_thr t (\<lambda>x. x\<lparr>park_event := True\<rparr>) s else s)"

fun run :: "maction list \<Rightarrow> msys \<Rightarrow> msys" where
  "run [] s = s"
| "run (a # as) s = run as (do_action a s)"

text \<open>A fresh monitor, as the constructor leaves it, and threads that are all idle.\<close>

definition new_monitor :: JvmtiRawMonitor where
  "new_monitor = \<lparr>owner = None, recursions = 0, entry_list = [], wait_set = [], waiters = 0\<rparr>"

definition idle_thread :: "bool \<Rightarrow> mthread" where
  "idle_thread java =
     \<lparr>is_Java_thread = java, external_suspend = False, interrupted = False, park_event = False,
      node_t_state = TS_RUN, node_notified = 0, pc = Idle, save = 0, ret = M_OK, millis = 0,
      result = None\<rparr>"

definition init_msys :: msys where
  "init_msys = \<lparr>mon = new_monitor, thr = (\<lambda>t. idle_thread True), vm_aborted = False, unparked = []\<rparr>"

text \<open>The schedule in which thread \<open>t\<close>, alone, makes the call \<open>c\<close> \<open>k\<close> times.\<close>

fun calls :: "nat \<Rightarrow> tid \<Rightarrow> mcall \<Rightarrow> maction list" where
  "calls 0 t c = []"
| "calls (Suc k) t c = Call t c # Step t # calls k t c"

text \<open>
  The schedule in which thread \<open>t\<close> calls \<open>raw_enter\<close> and runs as far as it can alone:
  the \<open>cmpxchg\<close>, the first try of \<open>simple_enter\<close>, and the enqueueing.
\<close>

definition contend :: "tid \<Rightarrow> maction list" where
  "contend t = [Call t RawEnter, Step t, Step t, Step t]"

text \<open>
  A thread can make a call: the VM is up, the thread is outside the monitor code and, if it
  is a Java thread, not externally suspended.
\<close>

definition can_run :: "tid \<Rightarrow> msys \<Rightarrow> bool" where
  "can_run t s \<longleftrightarrow> \<not> vm_aborted s \<and> pc (thr s t) = Idle
      \<and> \<not> (is_Java_thread (thr s t) \<and> external_suspend (thr s t))"

text \<open>Every node on the entry list is in state \<open>TS_ENTER\<close>, as \<open>simple_exit\<close> requires.\<close>

definition entry_nodes_ok :: "msys \<Rightarrow> bool" where
  "entry_nodes_ok s \<longleftrightarrow> (\<forall>w \<in> set (entry_list (mon s)). node_t_state (thr s w) = TS_ENTER)"

definition holds_monitor :: "tid \<Rightarrow> msys \<Rightarrow> bool" where
  "holds_monitor t s \<longleftrightarrow> can_run t s \<and> owner (mon s) = Some t \<and> entry_nodes_ok s"

text \<open>
  Draining the entry list: the owner calls \<open>raw_exit\<close>; the thread that this unparks, if
  any, runs until it is out of \<open>raw_enter\<close>, and is the next to exit.
\<close>

fun drain :: "nat \<Rightarrow> msys \<Rightarrow> msys" where
  "drain 0 s = s"
| "drain (Suc n) s =
     (case owner (mon s) of
        None \<Rightarrow> s
      | Some ow \<Rightarrow>
          let s1 = run [Call ow RawExit, Step ow] s
          in if unparked s1 = unparked s then s1
             else let w = last (unparked s1)
                  in drain n (run [Step w, Step w, Step w, Step w] s1))"

text \<open>
  A thread parked in \<open>simple_enter\<close>, called from \<open>raw_enter\<close>, with its node on the entry
  list.
\<close>

definition contender :: "tid \<Rightarrow> msys \<Rightarrow> bool" where
  "contender t s \<longleftrightarrow>
     pc (thr s t) = SE_park (if is_Java_thread (thr s t) then K_RE_loop else K_RE_finish)
     \<and> node_t_state (thr s t) = TS_ENTER
     \<and> \<not> (is_Java_thread (thr s t) \<and> external_suspend (thr s t))"

text \<open>
  Two waiters that are suspended while they wait.  Thread 2 enters once and waits; thread 1
  enters four times and waits; both are suspended; thread 3 enters, notifies all and exits.
  Thread 2 wakes, gets the monitor back, sees the suspension, releases the monitor and
  suspends itself; thread 1 does the same.  Thread 2 is resumed and returns from
  \<open>raw_wait\<close>.
\<close>

definition suspended_waiters :: "maction list" where
  "suspended_waiters =
    [Call 2 RawEnter, Step 2,
     Call 2 (RawWait 0), Step 2, Step 2, Step 2,
     Call 1 RawEnter, Step 1, Call 1 RawEnter, Step 1,
     Call 1 RawEnter, Step 1, Call 1 RawEnter, Step 1,
     Call 1 (RawWait 0), Step 1, Step 1, Step 1,
     Suspend 2, Suspend 1,
     Call 3 RawEnter, Step 3, Call 3 RawNotifyAll, Step 3, Call 3 RawExit, Step 3,
     Step 2, Step 2, Step 2, Step 2, Step 2, Step 2, Step 2,
     Step 1, Step 1, Step 1, Step 1, Step 1, Step 1, Step 1,
     Resume 2, Step 2, Step 2, Step 2]"

text \<open>
  Scenario S4 of the spec: thread 1 holds the monitor twice over, waits with a timeout of
  10 seconds, and is interrupted while it is parked.
\<close>

definition interrupted_wait :: "maction list" where
  "interrupted_wait =
    [Call 1 RawEnter, Step 1, Call 1 RawEnter, Step 1,
     Call 1 (RawWait 10000), Step 1, Step 1, Step 1,
     Interrupt 1,
     Step 1, Step 1, Step 1, Step 1, Step 1, Step 1, Step 1]"

section \<open>Safepoint synchronization (runtime/safepoint.cpp)\<close>

subsection \<open>Data model\<close>

datatype SynchronizeState = not_synchronized | synchronizing | synchronized

datatype JavaThreadState =
    thread_uninitialized
  | thread_new
  | thread_new_trans
  | thread_in_native
  | thread_in_native_trans
  | thread_in_vm
  | thread_in_vm_trans
  | thread_in_Java
  | thread_in_Java_trans
  | thread_blocked
  | thread_blocked_trans

text \<open>
  Program points of a Java thread: outside \<open>block\<close> (running, or on the edge of coming
  back from native code), and inside \<open>SafepointSynchronize::block\<close>.
\<close>

datatype wpc =
    W_running
  | W_native_trans
  | W_native_exit
  | W_parked_forever
  | B_entry
  | B_load
  | B_set_id
  | B_set_blocked
  | B_wait
  | B_parked
  | B_restore_state
  | B_reset_id
  | B_finish

text \<open>
  A Java thread with its \<open>ThreadSafepointState\<close>, and the locals of \<open>block\<close>
  (\<open>state\<close>, \<open>safepoint_id\<close>) with the point \<open>block\<close> returns to.
\<close>

record jthread =
  thread_state :: JavaThreadState
  is_terminated :: bool
  is_ext_suspended :: bool
  has_last_Java_frame :: bool
  walkable :: bool
  jni_active_critical :: nat
  lazy_critical_native :: bool
  critical_native_unlock :: bool
  safepoint_id :: "64 word"
  safepoint_safe :: bool
  orig_thread_state :: JavaThreadState
  poll_armed :: bool
  special_runtime_exit_condition :: bool
  at_poll_safepoint :: bool
  wpc :: wpc
  blk_state :: JavaThreadState
  blk_safepoint_id :: "64 word"
  blk_return :: wpc

record sp_config =
  uses_thread_local_poll :: bool
  uses_global_page_poll :: bool
  SafepointTimeout :: bool
  SafepointTimeoutDelay :: "64 word"
  AbortVMOnSafepointTimeout :: bool

datatype sleep = NanoSleep nat | MilliSleep nat

text \<open>What the code does that another thread, or a log, can see.\<close>

datatype sp_event =
    Ev_begin_call
  | Ev_begin_return
  | Ev_end_call
  | Ev_end_return
  | Ev_barrier_arm "32 word"
  | Ev_barrier_disarm
  | Ev_store_counter "64 word"
  | Ev_set_state SynchronizeState
  | Ev_back_off "64 word" "64 word" sleep
  | Ev_timeout_reported
  | Ev_set_safepoint_id tid "64 word"
  | Ev_set_thread_state tid JavaThreadState
  | Ev_barrier_wait tid "32 word"
  | Ev_special_exit tid bool

text \<open>Program points of the VM thread in \<open>begin\<close> and \<open>end\<close>.\<close>

datatype cpc =
    C_idle
  | C_arm_barrier
  | C_arm_counter
  | C_arm_state
  | C_arm_polls
  | C_arm_page
  | C_sync_first
  | C_sync_loop
  | C_set_synchronized
  | C_cleanup
  | C_at_safepoint
  | C_disarm_page
  | C_disarm_state
  | C_disarm_counter
  | C_disarm_threads
  | C_disarm_unlock
  | C_disarm_barrier

text \<open>
  The statics of \<open>SafepointSynchronize\<close>, the threads, the locals of \<open>begin\<close> and
  \<open>synchronize_threads\<close>, the clock \<open>os::javaTimeNanos\<close> reads, and the events so far.
  Times are \<open>jlong\<close>, \<open>iterations\<close> is an \<open>int\<close>, the counter is a \<open>uint64_t\<close>.

  Modelled from the spec: \<open>WaitBarrier\<close> is not among the sources.  The spec has "holds the
  current tag \<open>T\<close>; tag 0 means disarmed; arm sets \<open>T := new_tag\<close>; disarm sets \<open>T := 0\<close>
  and wakes all waiters; a worker only blocks if \<open>T == expected_tag\<close>, otherwise it returns
  immediately".  The tag is an \<open>int\<close> (the code casts the counter to it).
\<close>

record spsys =
  sp_state :: SynchronizeState
  safepoint_counter :: "64 word"
  waiting_to_block :: int
  current_jni_active_count :: int
  barrier_tag :: "32 word"
  PageArmed :: bool
  timeout_error_printed :: bool
  Threads_lock_owned :: bool
  jthreads :: "tid \<Rightarrow> jthread"
  number_of_threads :: nat
  vm_exited :: bool
  cpc :: cpc
  tss_list :: "tid list"
  still_running :: int
  initial_running :: int
  iterations :: "32 word"
  start_time :: "64 word"
  safepoint_limit_time :: "64 word"
  clock :: "64 word"
  config :: sp_config
  fatal_error :: bool
  trace :: "sp_event list"

definition upd_jt :: "tid \<Rightarrow> (jthread \<Rightarrow> jthread) \<Rightarrow> spsys \<Rightarrow> spsys" where
  "upd_jt t f s = s\<lparr>jthreads := (jthreads s)(t := f (jthreads s t))\<rparr>"

definition emit :: "sp_event \<Rightarrow> spsys \<Rightarrow> spsys" where
  "emit e s = s\<lparr>trace := trace s @ [e]\<rparr>"

definition fatal :: "spsys \<Rightarrow> spsys" where
  "fatal s = s\<lparr>fatal_error := True\<rparr>"

text \<open>
  The unit constants of utilities/globalDefinitions.hpp, which is not among the sources;
  their values are what their names say.
\<close>

definition NANOUNITS :: nat where "NANOUNITS = 1000000000"
definition MICROUNITS :: nat where "MICROUNITS = 1000000"
definition MILLIUNITS :: nat where "MILLIUNITS = 1000"
definition NANOSECS_PER_MILLISEC :: int where "NANOSECS_PER_MILLISEC = 1000000"

subsection \<open>The VM thread: arming\<close>

definition wait_barrier_arm :: "32 word \<Rightarrow> spsys \<Rightarrow> spsys" where
  "wait_barrier_arm tag s = emit (Ev_barrier_arm tag) (s\<lparr>barrier_tag := tag\<rparr>)"

definition wait_barrier_disarm :: "spsys \<Rightarrow> spsys" where
  "wait_barrier_disarm s = emit Ev_barrier_disarm (s\<lparr>barrier_tag := 0\<rparr>)"

text \<open>\<open>OrderAccess::release_store(&_safepoint_counter, _safepoint_counter + 1)\<close>\<close>

definition store_safepoint_counter :: "spsys \<Rightarrow> spsys" where
  "store_safepoint_counter s =
     emit (Ev_store_counter (safepoint_counter s + 1))
       (s\<lparr>safepoint_counter := safepoint_counter s + 1\<rparr>)"

definition set_sp_state :: "SynchronizeState \<Rightarrow> spsys \<Rightarrow> spsys" where
  "set_sp_state st s = emit (Ev_set_state st) (s\<lparr>sp_state := st\<rparr>)"

definition arm_local_polls :: "spsys \<Rightarrow> spsys" where
  "arm_local_polls s =
     (if uses_thread_local_poll (config s)
      then s\<lparr>jthreads := (\<lambda>t. if t < number_of_threads s
                                 then (jthreads s t)\<lparr>poll_armed := True\<rparr> else jthreads s t)\<rparr>
      else s)"

definition arm_polling_page :: "spsys \<Rightarrow> spsys" where
  "arm_polling_page s =
     (if uses_global_page_poll (config s)
      then (if PageArmed s then fatal s else s\<lparr>PageArmed := True\<rparr>)
      else s)"

text \<open>\<open>arm_safepoint\<close>, in the order of its statements.\<close>

definition arm_safepoint :: "spsys \<Rightarrow> spsys" where
  "arm_safepoint s =
     (let s1 = wait_barrier_arm (ucast (safepoint_counter s + 1)) s;
          s2 = store_safepoint_counter s1;
          s3 = set_sp_state synchronizing s2;
          s4 = arm_local_polls s3
      in arm_polling_page s4)"

subsection \<open>The VM thread: examining the threads\<close>

definition safepoint_safe_with :: "jthread \<Rightarrow> JavaThreadState \<Rightarrow> bool" where
  "safepoint_safe_with th st =
     (case st of
        thread_in_native \<Rightarrow> \<not> has_last_Java_frame th \<or> walkable th
      | thread_blocked \<Rightarrow> True
      | _ \<Rightarrow> False)"

text \<open>
  \<open>try_stable_load_state\<close>: the state, then the safepoint id, then the state again.  The
  three reads are one step here, so the two reads of the state agree.
\<close>

definition try_stable_load_state :: "jthread \<Rightarrow> 64 word \<Rightarrow> JavaThreadState option" where
  "try_stable_load_state th safepoint_count =
     (let st = thread_state th; sid = safepoint_id th
      in if sid \<noteq> 0 \<and> sid \<noteq> safepoint_count then None
         else if st = thread_state th then Some st else None)"

definition check_for_lazy_critical_native :: "JavaThreadState \<Rightarrow> jthread \<Rightarrow> jthread" where
  "check_for_lazy_critical_native st th =
     (if st = thread_in_native \<and> has_last_Java_frame th \<and> walkable th
         \<and> lazy_critical_native th \<and> \<not> critical_native_unlock th
      then th\<lparr>jni_active_critical := jni_active_critical th + 1, critical_native_unlock := True\<rparr>
      else th)"

definition account_safe_thread :: "tid \<Rightarrow> spsys \<Rightarrow> spsys" where
  "account_safe_thread t s =
     (let s1 = s\<lparr>waiting_to_block := waiting_to_block s - 1\<rparr>;
          s2 = (if 0 < jni_active_critical (jthreads s1 t)
                then s1\<lparr>current_jni_active_count := current_jni_active_count s1 + 1\<rparr> else s1)
      in upd_jt t (\<lambda>x. x\<lparr>safepoint_safe := True\<rparr>) s2)"

definition examine_state_of_thread :: "tid \<Rightarrow> 64 word \<Rightarrow> spsys \<Rightarrow> spsys" where
  "examine_state_of_thread t safepoint_count s =
     (case try_stable_load_state (jthreads s t) safepoint_count of
        None \<Rightarrow> s
      | Some stable_state \<Rightarrow>
          let s1 = upd_jt t (\<lambda>x. x\<lparr>orig_thread_state := stable_state\<rparr>) s
          in if is_ext_suspended (jthreads s1 t) then account_safe_thread t s1
             else if safepoint_safe_with (jthreads s1 t) stable_state
               then account_safe_thread t
                      (upd_jt t (check_for_lazy_critical_native stable_state) s1)
             else s1)"

text \<open>\<open>thread_not_running\<close>; a thread \<open>is_running\<close> while it is not \<open>_safepoint_safe\<close>.\<close>

definition thread_not_running :: "tid \<Rightarrow> spsys \<Rightarrow> bool \<times> spsys" where
  "thread_not_running t s =
     (if safepoint_safe (jthreads s t) then (True, s)
      else let s1 = examine_state_of_thread t (safepoint_counter s) s
           in (safepoint_safe (jthreads s1 t), s1))"

text \<open>
  One pass of \<open>synchronize_threads\<close> over a list of threads: the threads found not running
  are counted off \<open>still_running\<close>, the others are the new list.
\<close>

fun sync_pass :: "tid list \<Rightarrow> spsys \<Rightarrow> tid list \<times> spsys" where
  "sync_pass [] s = ([], s)"
| "sync_pass (t # ts) s =
     (case thread_not_running t s of
        (True, s1) \<Rightarrow> sync_pass ts (s1\<lparr>still_running := still_running s1 - 1\<rparr>)
      | (False, s1) \<Rightarrow> (case sync_pass ts s1 of (l, s2) \<Rightarrow> (t # l, s2)))"

text \<open>\<open>back_off\<close>: the sleep is chosen from the time since \<open>start_time\<close>, and takes that long.\<close>

definition back_off_sleep :: "64 word \<Rightarrow> 64 word \<Rightarrow> sleep" where
  "back_off_sleep start now =
     (if sint (now - start) < NANOSECS_PER_MILLISEC
      then NanoSleep (10 * (NANOUNITS div MICROUNITS))
      else MilliSleep 1)"

fun sleep_nanos :: "sleep \<Rightarrow> nat" where
  "sleep_nanos (NanoSleep n) = n"
| "sleep_nanos (MilliSleep m) = m * (NANOUNITS div MILLIUNITS)"

definition back_off :: "64 word \<Rightarrow> spsys \<Rightarrow> spsys" where
  "back_off start s =
     (let d = back_off_sleep start (clock s)
      in emit (Ev_back_off start (clock s) d) (s\<lparr>clock := clock s + of_nat (sleep_nanos d)\<rparr>))"

definition print_safepoint_timeout :: "spsys \<Rightarrow> spsys" where
  "print_safepoint_timeout s =
     (let s1 = (if \<not> timeout_error_printed s
                then emit Ev_timeout_reported (s\<lparr>timeout_error_printed := True\<rparr>) else s)
      in if AbortVMOnSafepointTimeout (config s1) then fatal s1 else s1)"

text \<open>
  \<open>synchronize_threads\<close> up to its loop: the first pass over all the threads.
\<close>

definition synchronize_first :: "spsys \<Rightarrow> spsys" where
  "synchronize_first s =
     (case sync_pass [0 ..< number_of_threads s]
             (s\<lparr>still_running := int (number_of_threads s)\<rparr>) of
        (l, s1) \<Rightarrow>
          let s2 = s1\<lparr>tss_list := l, initial_running := still_running s1\<rparr>
          in if still_running s2 \<le> 0 then s2\<lparr>iterations := 1, cpc := C_set_synchronized\<rparr>
             else s2\<lparr>iterations := 1, start_time := clock s2, cpc := C_sync_loop\<rparr>)"

text \<open>
  One turn of the \<open>do ... while (still_running > 0)\<close> loop: the check of the time limit,
  the check of \<open>iterations\<close>, then the pass over the list, the back-off if a thread is
  still running, and the count of the turn.
\<close>

definition check_timeout :: "spsys \<Rightarrow> spsys" where
  "check_timeout s =
     (if SafepointTimeout (config s) \<and> sint (safepoint_limit_time s) < sint (clock s)
      then print_safepoint_timeout s else s)"

definition turn_pass :: "spsys \<Rightarrow> spsys" where
  "turn_pass s =
     (case sync_pass (tss_list s) s of
        (l, s2) \<Rightarrow>
          let s3 = s2\<lparr>tss_list := l\<rparr>;
              s4 = (if 0 < still_running s3 then back_off (start_time s3) s3 else s3);
              s5 = s4\<lparr>iterations := iterations s4 + 1\<rparr>
          in if 0 < still_running s5 then s5 else s5\<lparr>cpc := C_set_synchronized\<rparr>)"

definition synchronize_turn :: "spsys \<Rightarrow> spsys" where
  "synchronize_turn s =
     (let s1 = check_timeout s
      in if fatal_error s1 then s1
         else if iterations s1 = - 1 \<and> PageArmed s1 then fatal s1
         else turn_pass s1)"

subsection \<open>The VM thread: disarming\<close>

definition disarm_polling_page :: "spsys \<Rightarrow> spsys" where
  "disarm_polling_page s =
     (if uses_global_page_poll (config s)
      then (if \<not> PageArmed s then fatal s else s\<lparr>PageArmed := False\<rparr>)
      else s)"

text \<open>The loop over the threads in \<open>disarm_safepoint\<close>: \<open>restart\<close> and \<open>disarm_if_needed\<close>.\<close>

definition restart_threads :: "spsys \<Rightarrow> spsys" where
  "restart_threads s =
     s\<lparr>jthreads := (\<lambda>t. if t < number_of_threads s
                          then (jthreads s t)\<lparr>safepoint_safe := False, poll_armed := False\<rparr>
                          else jthreads s t)\<rparr>"

text \<open>
  \<open>disarm_safepoint\<close>, in the order of its statements.  The \<open>guarantee\<close> on
  \<open>PageArmed\<close> comes first: when it fails the VM stops there, before the state is reset
  and before the counter is stored.
\<close>

definition disarm_safepoint :: "spsys \<Rightarrow> spsys" where
  "disarm_safepoint s =
     (let s1 = disarm_polling_page s
      in if fatal_error s1 then s1
         else let s2 = set_sp_state not_synchronized s1;
                  s3 = store_safepoint_counter s2;
                  s4 = restart_threads s3;
                  s5 = s4\<lparr>Threads_lock_owned := False\<rparr>
              in wait_barrier_disarm s5)"

subsection \<open>The VM thread, step by step\<close>

text \<open>
  \<open>begin\<close> up to \<open>arm_safepoint\<close>: the start of the safepoint is noted, \<open>Threads_lock\<close>
  is taken, the two counts are set, and the time limit is computed.
\<close>

definition begin_setup :: "spsys \<Rightarrow> spsys" where
  "begin_setup s =
     (let s1 = emit Ev_begin_call s;
          s2 = s1\<lparr>Threads_lock_owned := True, current_jni_active_count := 0,
                  waiting_to_block := int (number_of_threads s1)\<rparr>
      in if SafepointTimeout (config s2)
         then s2\<lparr>safepoint_limit_time :=
                    clock s2 + SafepointTimeoutDelay (config s2) * of_nat (NANOUNITS div MILLIUNITS),
                 timeout_error_printed := False\<rparr>
         else s2\<lparr>safepoint_limit_time := 0\<rparr>)"

text \<open>
  One step of the VM thread.  From \<open>C_idle\<close> it starts \<open>begin\<close>; from \<open>C_at_safepoint\<close>,
  where the operation has run, it starts \<open>end\<close>.  After a fatal error nothing runs.
\<close>

definition cstep :: "spsys \<Rightarrow> spsys" where
  "cstep s =
     (if fatal_error s then s else
      case cpc s of
        C_idle \<Rightarrow> (begin_setup s)\<lparr>cpc := C_arm_barrier\<rparr>
      | C_arm_barrier \<Rightarrow>
          (wait_barrier_arm (ucast (safepoint_counter s + 1)) s)\<lparr>cpc := C_arm_counter\<rparr>
      | C_arm_counter \<Rightarrow> (store_safepoint_counter s)\<lparr>cpc := C_arm_state\<rparr>
      | C_arm_state \<Rightarrow> (set_sp_state synchronizing s)\<lparr>cpc := C_arm_polls\<rparr>
      | C_arm_polls \<Rightarrow> (arm_local_polls s)\<lparr>cpc := C_arm_page\<rparr>
      | C_arm_page \<Rightarrow> (arm_polling_page s)\<lparr>cpc := C_sync_first\<rparr>
      | C_sync_first \<Rightarrow> synchronize_first s
      | C_sync_loop \<Rightarrow> synchronize_turn s
      | C_set_synchronized \<Rightarrow> (set_sp_state synchronized s)\<lparr>cpc := C_cleanup\<rparr>
      | C_cleanup \<Rightarrow> (emit Ev_begin_return s)\<lparr>cpc := C_at_safepoint\<rparr>
      | C_at_safepoint \<Rightarrow> (emit Ev_end_call s)\<lparr>cpc := C_disarm_page\<rparr>
      | C_disarm_page \<Rightarrow> (disarm_polling_page s)\<lparr>cpc := C_disarm_state\<rparr>
      | C_disarm_state \<Rightarrow> (set_sp_state not_synchronized s)\<lparr>cpc := C_disarm_counter\<rparr>
      | C_disarm_counter \<Rightarrow> (store_safepoint_counter s)\<lparr>cpc := C_disarm_threads\<rparr>
      | C_disarm_threads \<Rightarrow> (restart_threads s)\<lparr>cpc := C_disarm_unlock\<rparr>
      | C_disarm_unlock \<Rightarrow> s\<lparr>Threads_lock_owned := False, cpc := C_disarm_barrier\<rparr>
      | C_disarm_barrier \<Rightarrow> (emit Ev_end_return (wait_barrier_disarm s))\<lparr>cpc := C_idle\<rparr>)"

subsection \<open>A Java thread, step by step\<close>

text \<open>
  Modelled from the spec: \<open>SafepointMechanism\<close> and the thread state transitions are not
  among the sources.  The spec has "a worker reaches the protocol either by voluntary poll
  check or by a forced entry point on the edges of state transitions" and "a per-worker
  polling word the coordinator can flip and the worker reads on its fast path": a thread
  should block when its poll word is armed or, without thread-local polls, when the global
  state is not \<open>not_synchronized\<close>.
\<close>

definition should_block :: "tid \<Rightarrow> spsys \<Rightarrow> bool" where
  "should_block t s =
     (if uses_thread_local_poll (config s) then poll_armed (jthreads s t)
      else sp_state s \<noteq> not_synchronized)"

text \<open>The thread states from which \<open>block\<close> may be called (the cases of its switch).\<close>

definition block_state_ok :: "JavaThreadState \<Rightarrow> bool" where
  "block_state_ok st \<longleftrightarrow>
     st = thread_in_vm_trans \<or> st = thread_in_Java \<or> st = thread_in_native_trans
     \<or> st = thread_blocked_trans \<or> st = thread_new_trans"

text \<open>
  One step of thread \<open>t\<close>.  The program points \<open>B_entry\<close> to \<open>B_finish\<close> are
  \<open>SafepointSynchronize::block\<close>:
  \<^item> \<open>B_entry\<close>: a terminated thread leaves at once (it parks for ever if the VM has exited);
  \<^item> \<open>B_load\<close>: \<open>state\<close> and \<open>safepoint_id\<close> are read, the frame anchor is made walkable;
  \<^item> \<open>B_set_id\<close>: the switch on \<open>state\<close>, and \<open>set_safepoint_id(safepoint_id)\<close>;
  \<^item> \<open>B_set_blocked\<close>: \<open>set_thread_state_fence(_thread_blocked)\<close>;
  \<^item> \<open>B_wait\<close>: \<open>_wait_barrier->wait(static_cast<int>(safepoint_id))\<close>, which returns at
    once when the tag of the barrier is not the one waited for, and otherwise parks the
    thread (\<open>B_parked\<close>) until it is not;
  \<^item> \<open>B_restore_state\<close>: \<open>set_thread_state(state)\<close>;
  \<^item> \<open>B_reset_id\<close>: \<open>reset_safepoint_id()\<close>;
  \<^item> \<open>B_finish\<close>: the guarantee on the safepoint id and the special exit conditions.
\<close>

definition wstep :: "tid \<Rightarrow> spsys \<Rightarrow> spsys" where
  "wstep t s =
     (if fatal_error s then s else
      let me = jthreads s t in
      case wpc me of
        W_running \<Rightarrow> s
      | W_parked_forever \<Rightarrow> s
      | W_native_trans \<Rightarrow>
          if should_block t s then upd_jt t (\<lambda>x. x\<lparr>wpc := B_entry, blk_return := W_native_exit\<rparr>) s
          else upd_jt t (\<lambda>x. x\<lparr>wpc := W_native_exit\<rparr>) s
      | W_native_exit \<Rightarrow>
          emit (Ev_set_thread_state t thread_in_Java)
            (upd_jt t (\<lambda>x. x\<lparr>thread_state := thread_in_Java, wpc := W_running\<rparr>) s)
      | B_entry \<Rightarrow>
          if is_terminated me
          then (if vm_exited s then upd_jt t (\<lambda>x. x\<lparr>wpc := W_parked_forever\<rparr>) s
                else upd_jt t (\<lambda>x. x\<lparr>wpc := blk_return me\<rparr>) s)
          else upd_jt t (\<lambda>x. x\<lparr>wpc := B_load\<rparr>) s
      | B_load \<Rightarrow>
          upd_jt t (\<lambda>x. x\<lparr>blk_state := thread_state me, walkable := True,
                            blk_safepoint_id := safepoint_counter s, wpc := B_set_id\<rparr>) s
      | B_set_id \<Rightarrow>
          if block_state_ok (blk_state me)
          then emit (Ev_set_safepoint_id t (blk_safepoint_id me))
                 (upd_jt t (\<lambda>x. x\<lparr>safepoint_id := blk_safepoint_id me, wpc := B_set_blocked\<rparr>) s)
          else fatal s
      | B_set_blocked \<Rightarrow>
          emit (Ev_set_thread_state t thread_blocked)
            (upd_jt t (\<lambda>x. x\<lparr>thread_state := thread_blocked, wpc := B_wait\<rparr>) s)
      | B_wait \<Rightarrow>
          emit (Ev_barrier_wait t (ucast (blk_safepoint_id me)))
            (upd_jt t (\<lambda>x. x\<lparr>wpc := (if barrier_tag s = ucast (blk_safepoint_id me)
                                       then B_parked else B_restore_state)\<rparr>) s)
      | B_parked \<Rightarrow>
          if barrier_tag s = ucast (blk_safepoint_id me) then s
          else upd_jt t (\<lambda>x. x\<lparr>wpc := B_restore_state\<rparr>) s
      | B_restore_state \<Rightarrow>
          emit (Ev_set_thread_state t (blk_state me))
            (upd_jt t (\<lambda>x. x\<lparr>thread_state := blk_state me, wpc := B_reset_id\<rparr>) s)
      | B_reset_id \<Rightarrow>
          emit (Ev_set_safepoint_id t 0)
            (upd_jt t (\<lambda>x. x\<lparr>safepoint_id := 0, wpc := B_finish\<rparr>) s)
      | B_finish \<Rightarrow>
          if safepoint_id me \<noteq> 0 then fatal s
          else
            let s1 = (if blk_state me \<noteq> thread_blocked_trans \<and> blk_state me \<noteq> thread_in_vm_trans
                         \<and> special_runtime_exit_condition me
                      then emit (Ev_special_exit t
                                   (\<not> at_poll_safepoint me \<and> blk_state me \<noteq> thread_in_native_trans)) s
                      else s)
            in upd_jt t (\<lambda>x. x\<lparr>wpc := blk_return me\<rparr>) s1)"

subsection \<open>Schedules of the safepoint protocol\<close>

text \<open>
  What can happen next: the VM thread or a Java thread takes a step; a Java thread running
  Java code polls, or goes into native code, or starts coming back from it; time passes.
\<close>

datatype sp_action =
    Coord
  | Worker tid
  | Poll tid
  | EnterNative tid
  | LeaveNative tid
  | Tick "64 word"

fun do_sp_action :: "sp_action \<Rightarrow> spsys \<Rightarrow> spsys" where
  "do_sp_action Coord s = cstep s"
| "do_sp_action (Worker t) s = wstep t s"
| "do_sp_action (Poll t) s =
     (if \<not> fatal_error s \<and> wpc (jthreads s t) = W_running
         \<and> thread_state (jthreads s t) = thread_in_Java \<and> should_block t s
      then upd_jt t (\<lambda>x. x\<lparr>wpc := B_entry, blk_return := W_running\<rparr>) s else s)"
| "do_sp_action (EnterNative t) s =
     (if \<not> fatal_error s \<and> wpc (jthreads s t) = W_running
         \<and> thread_state (jthreads s t) = thread_in_Java
      then emit (Ev_set_thread_state t thread_in_native)
             (upd_jt t (\<lambda>x. x\<lparr>thread_state := thread_in_native\<rparr>) s) else s)"
| "do_sp_action (LeaveNative t) s =
     (if \<not> fatal_error s \<and> wpc (jthreads s t) = W_running
         \<and> thread_state (jthreads s t) = thread_in_native
      then emit (Ev_set_thread_state t thread_in_native_trans)
             (upd_jt t (\<lambda>x. x\<lparr>thread_state := thread_in_native_trans, wpc := W_native_trans\<rparr>) s)
      else s)"
| "do_sp_action (Tick d) s = s\<lparr>clock := clock s + d\<rparr>"

fun sp_run :: "sp_action list \<Rightarrow> spsys \<Rightarrow> spsys" where
  "sp_run [] s = s"
| "sp_run (a # as) s = sp_run as (do_sp_action a s)"

text \<open>
  The system before the first safepoint: the counter at 0, the state \<open>not_synchronized\<close>,
  the barrier disarmed, the VM thread idle; the flags, the number of threads and the threads
  themselves are given.
\<close>

definition sp_init :: "sp_config \<Rightarrow> nat \<Rightarrow> (tid \<Rightarrow> jthread) \<Rightarrow> spsys" where
  "sp_init cfg n ths =
     \<lparr>sp_state = not_synchronized, safepoint_counter = 0, waiting_to_block = 0,
      current_jni_active_count = 0, barrier_tag = 0, PageArmed = False,
      timeout_error_printed = False, Threads_lock_owned = False, jthreads = ths,
      number_of_threads = n, vm_exited = False, cpc = C_idle, tss_list = [],
      still_running = 0, initial_running = 0, iterations = 0, start_time = 0,
      safepoint_limit_time = 0, clock = 0, config = cfg, fatal_error = False, trace = []\<rparr>"

text \<open>A thread running Java code, with a walkable stack and nothing pending.\<close>

definition java_thread :: jthread where
  "java_thread =
     \<lparr>thread_state = thread_in_Java, is_terminated = False, is_ext_suspended = False,
      has_last_Java_frame = True, walkable = False, jni_active_critical = 0,
      lazy_critical_native = False, critical_native_unlock = False, safepoint_id = 0,
      safepoint_safe = False, orig_thread_state = thread_uninitialized, poll_armed = False,
      special_runtime_exit_condition = False, at_poll_safepoint = False, wpc = W_running,
      blk_state = thread_uninitialized, blk_safepoint_id = 0, blk_return = W_running\<rparr>"

definition local_polls :: sp_config where
  "local_polls =
     \<lparr>uses_thread_local_poll = True, uses_global_page_poll = False, SafepointTimeout = False,
      SafepointTimeoutDelay = 10000, AbortVMOnSafepointTimeout = False\<rparr>"

text \<open>The flags of a VM that polls with the global page.\<close>

definition page_polls :: sp_config where
  "page_polls =
     \<lparr>uses_thread_local_poll = False, uses_global_page_poll = True, SafepointTimeout = False,
      SafepointTimeoutDelay = 10000, AbortVMOnSafepointTimeout = False\<rparr>"

subsection \<open>What the proofs below speak of\<close>

text \<open>The part of the system that examining a thread leaves alone.\<close>

definition coordinator_view where
  "coordinator_view s = (sp_state s, safepoint_counter s, cpc s, trace s, fatal_error s, barrier_tag s,
      PageArmed s, clock s, config s, number_of_threads s, start_time s, iterations s,
      safepoint_limit_time s, timeout_error_printed s, vm_exited s, Threads_lock_owned s, tss_list s)"

text \<open>
  The global state and the parity of the counter at each program point of the VM thread.
\<close>

fun expected_state :: "cpc \<Rightarrow> SynchronizeState" where
  "expected_state C_arm_polls = synchronizing"
| "expected_state C_arm_page = synchronizing"
| "expected_state C_sync_first = synchronizing"
| "expected_state C_sync_loop = synchronizing"
| "expected_state C_set_synchronized = synchronizing"
| "expected_state C_cleanup = synchronized"
| "expected_state C_at_safepoint = synchronized"
| "expected_state C_disarm_page = synchronized"
| "expected_state C_disarm_state = synchronized"
| "expected_state p = not_synchronized"

fun expected_odd :: "cpc \<Rightarrow> bool" where
  "expected_odd C_idle = False"
| "expected_odd C_arm_barrier = False"
| "expected_odd C_arm_counter = False"
| "expected_odd C_disarm_threads = False"
| "expected_odd C_disarm_unlock = False"
| "expected_odd C_disarm_barrier = False"
| "expected_odd p = True"

definition parity_inv :: "spsys \<Rightarrow> bool" where
  "parity_inv s \<longleftrightarrow> sp_state s = expected_state (cpc s)
     \<and> odd (safepoint_counter s) = expected_odd (cpc s)"

text \<open>
  The events that matter for the counter: the calls and returns of \<open>begin\<close> and \<open>end\<close>
  and the stores to \<open>_safepoint_counter\<close>.
\<close>

fun is_counter_event :: "sp_event \<Rightarrow> bool" where
  "is_counter_event Ev_begin_call = True"
| "is_counter_event Ev_begin_return = True"
| "is_counter_event Ev_end_call = True"
| "is_counter_event Ev_end_return = True"
| "is_counter_event (Ev_store_counter v) = True"
| "is_counter_event e = False"

definition counter_events :: "sp_event list \<Rightarrow> sp_event list" where
  "counter_events tr = filter is_counter_event tr"

fun is_store :: "sp_event \<Rightarrow> bool" where
  "is_store (Ev_store_counter v) = True"
| "is_store e = False"

definition stores :: "sp_event list \<Rightarrow> nat" where
  "stores tr = length (filter is_store tr)"

text \<open>
  What the spec says of one cycle, as a list of events: cycle \<open>k\<close>, counted from 0, takes
  the counter from \<open>2 * k\<close> to \<open>2 * k + 1\<close> in \<open>begin\<close> and to \<open>2 * k + 2\<close> in
  \<open>end\<close>, with one store in each.  \<open>spec_trace k\<close> is \<open>k\<close> cycles from a counter at 0.
\<close>

definition cycle_trace :: "nat \<Rightarrow> sp_event list" where
  "cycle_trace k =
     [Ev_begin_call, Ev_store_counter (of_nat (2 * k + 1)), Ev_begin_return,
      Ev_end_call, Ev_store_counter (of_nat (2 * k + 2)), Ev_end_return]"

definition spec_trace :: "nat \<Rightarrow> sp_event list" where
  "spec_trace k = concat (map cycle_trace [0 ..< k])"

text \<open>
  How many of the six events of the current cycle have happened when the VM thread is at a
  program point, and how many of them are stores.
\<close>

fun phase :: "cpc \<Rightarrow> nat" where
  "phase C_idle = 0"
| "phase C_arm_barrier = 1"
| "phase C_arm_counter = 1"
| "phase C_at_safepoint = 3"
| "phase C_disarm_page = 4"
| "phase C_disarm_state = 4"
| "phase C_disarm_counter = 4"
| "phase C_disarm_threads = 5"
| "phase C_disarm_unlock = 5"
| "phase C_disarm_barrier = 5"
| "phase p = 2"

fun stores_at :: "cpc \<Rightarrow> nat" where
  "stores_at C_idle = 0"
| "stores_at C_arm_barrier = 0"
| "stores_at C_arm_counter = 0"
| "stores_at C_disarm_threads = 2"
| "stores_at C_disarm_unlock = 2"
| "stores_at C_disarm_barrier = 2"
| "stores_at p = 1"

definition stepping_inv :: "nat \<Rightarrow> spsys \<Rightarrow> bool" where
  "stepping_inv k s \<longleftrightarrow>
     counter_events (trace s) = spec_trace k @ take (phase (cpc s)) (cycle_trace k)
     \<and> safepoint_counter s = of_nat (2 * k + stores_at (cpc s))
     \<and> stores (trace s) = 2 * k + stores_at (cpc s)"

text \<open>
  The polling page is armed from the end of \<open>arm_safepoint\<close> to the start of
  \<open>disarm_safepoint\<close>, when the VM polls with the global page, and never otherwise.
\<close>

fun page_armed_at :: "cpc \<Rightarrow> bool" where
  "page_armed_at C_sync_first = True"
| "page_armed_at C_sync_loop = True"
| "page_armed_at C_set_synchronized = True"
| "page_armed_at C_cleanup = True"
| "page_armed_at C_at_safepoint = True"
| "page_armed_at C_disarm_page = True"
| "page_armed_at p = False"

definition page_inv :: "spsys \<Rightarrow> bool" where
  "page_inv s \<longleftrightarrow> PageArmed s = (uses_global_page_poll (config s) \<and> page_armed_at (cpc s))"





subsection \<open>Schedules and states for the proofs about the counter\<close>

text \<open>
  A VM with no Java threads, thread-local polls, no time limit, and the VM thread idle.
\<close>

definition idle_vm :: spsys where
  "idle_vm = sp_init local_polls 0 (\<lambda>t. java_thread)"

text \<open>One \<open>begin\<close> and one \<open>end\<close> of the VM thread when there is no thread to wait for.\<close>

definition one_cycle :: "sp_action list" where
  "one_cycle = replicate 16 Coord"

text \<open>The number of cycles after which the counter is \<open>2 ^ 64 - 2\<close>.\<close>

definition cycles_to_wrap :: nat where
  "cycles_to_wrap = 2 ^ 63 - 1"

text \<open>
  A VM with no Java threads that polls with the global page, when the VM thread is about to
  call \<open>disarm_safepoint\<close>, and when it has returned from it.
\<close>

definition before_disarm :: spsys where
  "before_disarm = sp_run (replicate 10 Coord) (sp_init page_polls 0 (\<lambda>t. java_thread))"

definition after_disarm :: spsys where
  "after_disarm
     = sp_run (replicate 10 Coord @ replicate 6 Coord) (sp_init page_polls 0 (\<lambda>t. java_thread))"

subsection \<open>Schedules and states for the proofs about \<open>block\<close>\<close>

text \<open>
  One thread goes native, a whole safepoint passes (seven steps of the VM thread from
  \<open>begin\<close> to the synchronized state count the native thread as safe), and the thread
  comes back from native code while its poll is still armed: it is on its way into
  \<open>block\<close> when the VM thread ends the safepoint with nine more steps.
\<close>

definition stale_poll :: "sp_action list" where
  "stale_poll = [EnterNative 0] @ replicate 7 Coord @ [LeaveNative 0, Worker 0] @ replicate 9 Coord"

text \<open>One Java thread with a walkable stack, thread-local polls.\<close>

definition native_ready :: spsys where
  "native_ready = sp_init local_polls 1 (\<lambda>t. java_thread\<lparr>walkable := True\<rparr>)"

text \<open>One terminated thread at the entry of \<open>block\<close>.\<close>

definition terminated_in_block :: spsys where
  "terminated_in_block =
     sp_init local_polls 1 (\<lambda>t. java_thread\<lparr>is_terminated := True, wpc := B_entry\<rparr>)"

subsection \<open>Schedules and states for the proofs about the spin loop\<close>





section \<open>Safepoint cleanup (runtime/safepoint.cpp)\<close>

subsection \<open>Data model\<close>

text \<open>
  The subtasks, as \<open>ParallelSPCleanupTask::work\<close> names them and in the order in which it
  tries to claim them.
\<close>

datatype cleanup_task =
    SAFEPOINT_CLEANUP_DEFLATE_MONITORS
  | SAFEPOINT_CLEANUP_UPDATE_INLINE_CACHES
  | SAFEPOINT_CLEANUP_COMPILATION_POLICY
  | SAFEPOINT_CLEANUP_SYMBOL_TABLE_REHASH
  | SAFEPOINT_CLEANUP_STRING_TABLE_REHASH
  | SAFEPOINT_CLEANUP_CLD_PURGE
  | SAFEPOINT_CLEANUP_SYSTEM_DICTIONARY_RESIZE

definition cleanup_tasks :: "cleanup_task list" where
  "cleanup_tasks =
     [SAFEPOINT_CLEANUP_DEFLATE_MONITORS, SAFEPOINT_CLEANUP_UPDATE_INLINE_CACHES,
      SAFEPOINT_CLEANUP_COMPILATION_POLICY, SAFEPOINT_CLEANUP_SYMBOL_TABLE_REHASH,
      SAFEPOINT_CLEANUP_STRING_TABLE_REHASH, SAFEPOINT_CLEANUP_CLD_PURGE,
      SAFEPOINT_CLEANUP_SYSTEM_DICTIONARY_RESIZE]"

text \<open>
  The program points of one worker in \<open>work\<close>: the walk over the threads, then for each
  subtask the claim and, for the worker that has won it, the claimed block; at the end
  \<open>all_tasks_completed\<close>.
\<close>

datatype cleanup_pc =
    CL_threads_do
  | CL_claim cleanup_task
  | CL_block cleanup_task
  | CL_all_tasks_completed
  | CL_done

text \<open>
  What is recorded: the walk over the threads by a worker, the result of a claim, the entry
  of a worker into the claimed block of a subtask, the call of the function that does the
  work of the subtask, and the end of \<open>work\<close>.
\<close>

datatype cleanup_event =
    Ev_threads_do nat
  | Ev_try_claim nat cleanup_task bool
  | Ev_block nat cleanup_task
  | Ev_work nat cleanup_task
  | Ev_completed nat

text \<open>
  The task object that \<open>do_cleanup_tasks\<close> builds for one safepoint, with the two flags
  that the claimed blocks read and the workers on it.
\<close>

record cleanup =
  claimed :: "cleanup_task \<Rightarrow> bool"
  threads_completed :: nat
  num_workers :: nat
  symbol_table_needs_rehashing :: bool
  string_table_needs_rehashing :: bool
  worker_pc :: "nat \<Rightarrow> cleanup_pc"
  cleanup_trace :: "cleanup_event list"

subsection \<open>Claiming\<close>

text \<open>
  Modelled from the spec: \<open>SubTasksDone\<close> (\<open>try_claim_task\<close>, \<open>all_tasks_completed\<close>) is
  not among the sources.  The spec has "each worker thread in the dispatcher pool performs
  \<open>cas\<close> on a per-task claimed bit; only the winner runs the task" and "a final barrier waits
  until all workers report completion of their claimed tasks": a claim is one atomic step
  that succeeds exactly when it finds the bit of the task clear, and sets it.
\<close>

definition try_claim_task :: "cleanup_task \<Rightarrow> cleanup \<Rightarrow> bool \<times> cleanup" where
  "try_claim_task t s = (\<not> claimed s t, s\<lparr>claimed := (claimed s)(t := True)\<rparr>)"

definition all_tasks_completed :: "cleanup \<Rightarrow> cleanup" where
  "all_tasks_completed s = s\<lparr>threads_completed := threads_completed s + 1\<rparr>"

subsection \<open>\<open>ParallelSPCleanupTask::work\<close>, step by step\<close>

definition cl_emit :: "cleanup_event \<Rightarrow> cleanup \<Rightarrow> cleanup" where
  "cl_emit e s = s\<lparr>cleanup_trace := cleanup_trace s @ [e]\<rparr>"

definition set_worker_pc :: "nat \<Rightarrow> cleanup_pc \<Rightarrow> cleanup \<Rightarrow> cleanup" where
  "set_worker_pc w p s = s\<lparr>worker_pc := (worker_pc s)(w := p)\<rparr>"

text \<open>The program point after the \<open>if\<close> of a subtask.\<close>

fun after_task :: "cleanup_task \<Rightarrow> cleanup_pc" where
  "after_task SAFEPOINT_CLEANUP_DEFLATE_MONITORS = CL_claim SAFEPOINT_CLEANUP_UPDATE_INLINE_CACHES"
| "after_task SAFEPOINT_CLEANUP_UPDATE_INLINE_CACHES = CL_claim SAFEPOINT_CLEANUP_COMPILATION_POLICY"
| "after_task SAFEPOINT_CLEANUP_COMPILATION_POLICY = CL_claim SAFEPOINT_CLEANUP_SYMBOL_TABLE_REHASH"
| "after_task SAFEPOINT_CLEANUP_SYMBOL_TABLE_REHASH = CL_claim SAFEPOINT_CLEANUP_STRING_TABLE_REHASH"
| "after_task SAFEPOINT_CLEANUP_STRING_TABLE_REHASH = CL_claim SAFEPOINT_CLEANUP_CLD_PURGE"
| "after_task SAFEPOINT_CLEANUP_CLD_PURGE = CL_claim SAFEPOINT_CLEANUP_SYSTEM_DICTIONARY_RESIZE"
| "after_task SAFEPOINT_CLEANUP_SYSTEM_DICTIONARY_RESIZE = CL_all_tasks_completed"

text \<open>
  Whether the claimed block of a subtask calls its function: the two rehash blocks test
  \<open>needs_rehashing()\<close> first, the others call it always.
\<close>

fun does_work :: "cleanup \<Rightarrow> cleanup_task \<Rightarrow> bool" where
  "does_work s SAFEPOINT_CLEANUP_SYMBOL_TABLE_REHASH = symbol_table_needs_rehashing s"
| "does_work s SAFEPOINT_CLEANUP_STRING_TABLE_REHASH = string_table_needs_rehashing s"
| "does_work s t = True"

definition claimed_block :: "nat \<Rightarrow> cleanup_task \<Rightarrow> cleanup \<Rightarrow> cleanup" where
  "claimed_block w t s =
     (let s1 = cl_emit (Ev_block w t) s
      in if does_work s1 t then cl_emit (Ev_work w t) s1 else s1)"

definition work_step :: "nat \<Rightarrow> cleanup \<Rightarrow> cleanup" where
  "work_step w s =
     (if num_workers s \<le> w then s else
      case worker_pc s w of
        CL_threads_do \<Rightarrow>
          set_worker_pc w (CL_claim SAFEPOINT_CLEANUP_DEFLATE_MONITORS) (cl_emit (Ev_threads_do w) s)
      | CL_claim t \<Rightarrow>
          (case try_claim_task t s of
             (won, s1) \<Rightarrow>
               set_worker_pc w (if won then CL_block t else after_task t)
                 (cl_emit (Ev_try_claim w t won) s1))
      | CL_block t \<Rightarrow> set_worker_pc w (after_task t) (claimed_block w t s)
      | CL_all_tasks_completed \<Rightarrow>
          set_worker_pc w CL_done (cl_emit (Ev_completed w) (all_tasks_completed s))
      | CL_done \<Rightarrow> s)"

fun cleanup_run :: "nat list \<Rightarrow> cleanup \<Rightarrow> cleanup" where
  "cleanup_run [] s = s"
| "cleanup_run (w # ws) s = cleanup_run ws (work_step w s)"

text \<open>
  The task as its constructor leaves it, for \<open>n\<close> workers: no subtask claimed, every worker
  at the start of \<open>work\<close>.
\<close>

definition ParallelSPCleanupTask :: "nat \<Rightarrow> bool \<Rightarrow> bool \<Rightarrow> cleanup" where
  "ParallelSPCleanupTask n sy st =
     \<lparr>claimed = (\<lambda>t. False), threads_completed = 0, num_workers = n,
      symbol_table_needs_rehashing = sy, string_table_needs_rehashing = st,
      worker_pc = (\<lambda>w. CL_threads_do), cleanup_trace = []\<rparr>"

text \<open>
  \<open>do_cleanup_tasks\<close>: with a gang of workers the task is built for its active workers and
  they all run \<open>work\<close>; without one it is built for one worker and the VM thread runs
  \<open>work(0)\<close>.  The schedule gives the order of the steps of the workers.
\<close>

definition do_cleanup_tasks :: "nat option \<Rightarrow> bool \<Rightarrow> bool \<Rightarrow> nat list \<Rightarrow> cleanup" where
  "do_cleanup_tasks cleanup_workers sy st sch =
     (case cleanup_workers of
        Some num_cleanup_workers \<Rightarrow> cleanup_run sch (ParallelSPCleanupTask num_cleanup_workers sy st)
      | None \<Rightarrow> cleanup_run sch (ParallelSPCleanupTask 1 sy st))"

subsection \<open>What the proofs about the cleanup speak of\<close>

text \<open>The workers whose claim of a subtask succeeded, in the order of the claims.\<close>

fun winners :: "cleanup_task \<Rightarrow> cleanup_event list \<Rightarrow> nat list" where
  "winners t [] = []"
| "winners t (Ev_try_claim w u True # es) = (if u = t then w # winners t es else winners t es)"
| "winners t (e # es) = winners t es"

text \<open>The workers that entered the claimed block of a subtask.\<close>

fun blocks_run :: "cleanup_task \<Rightarrow> cleanup_event list \<Rightarrow> nat list" where
  "blocks_run t [] = []"
| "blocks_run t (Ev_block w u # es) = (if u = t then w # blocks_run t es else blocks_run t es)"
| "blocks_run t (e # es) = blocks_run t es"

text \<open>The workers that called the function of a subtask.\<close>

fun works_done :: "cleanup_task \<Rightarrow> cleanup_event list \<Rightarrow> nat list" where
  "works_done t [] = []"
| "works_done t (Ev_work w u # es) = (if u = t then w # works_done t es else works_done t es)"
| "works_done t (e # es) = works_done t es"

text \<open>The place of a program point in \<open>work\<close>.\<close>

fun task_index :: "cleanup_task \<Rightarrow> nat" where
  "task_index SAFEPOINT_CLEANUP_DEFLATE_MONITORS = 0"
| "task_index SAFEPOINT_CLEANUP_UPDATE_INLINE_CACHES = 1"
| "task_index SAFEPOINT_CLEANUP_COMPILATION_POLICY = 2"
| "task_index SAFEPOINT_CLEANUP_SYMBOL_TABLE_REHASH = 3"
| "task_index SAFEPOINT_CLEANUP_STRING_TABLE_REHASH = 4"
| "task_index SAFEPOINT_CLEANUP_CLD_PURGE = 5"
| "task_index SAFEPOINT_CLEANUP_SYSTEM_DICTIONARY_RESIZE = 6"

fun pc_index :: "cleanup_pc \<Rightarrow> nat" where
  "pc_index CL_threads_do = 0"
| "pc_index (CL_claim t) = 1 + 2 * task_index t"
| "pc_index (CL_block t) = 2 + 2 * task_index t"
| "pc_index CL_all_tasks_completed = 15"
| "pc_index CL_done = 16"

text \<open>
  A subtask at any moment of the cleanup.  A worker that is past the claim of the subtask has
  left it claimed.
\<close>

definition passed_inv :: "cleanup \<Rightarrow> cleanup_task \<Rightarrow> bool" where
  "passed_inv s t \<longleftrightarrow>
     (\<forall>w \<in> {0 ..< num_workers s}.
        1 + 2 * task_index t < pc_index (worker_pc s w) \<longrightarrow> claimed s t)"

text \<open>The function of the subtask has been called by those that went through its claimed block.\<close>

definition work_inv :: "cleanup \<Rightarrow> cleanup_task \<Rightarrow> bool" where
  "work_inv s t \<longleftrightarrow>
     works_done t (cleanup_trace s)
       = (if does_work s t then blocks_run t (cleanup_trace s) else [])"

text \<open>
  No claim has succeeded while the subtask is not claimed and one has when it is; a worker in
  the claimed block is the one whose claim succeeded, and nobody has been through the block
  yet; when no worker is in the block, those whose claim succeeded have been through it.
\<close>

definition claim_inv :: "cleanup \<Rightarrow> cleanup_task \<Rightarrow> bool" where
  "claim_inv s t \<longleftrightarrow>
     (\<not> claimed s t \<longrightarrow> winners t (cleanup_trace s) = [])
     \<and> (claimed s t \<longrightarrow> length (winners t (cleanup_trace s)) = 1)
     \<and> (\<forall>u \<in> {0 ..< num_workers s}.
           worker_pc s u = CL_block t \<longrightarrow>
             winners t (cleanup_trace s) = [u] \<and> blocks_run t (cleanup_trace s) = [])
     \<and> ((\<forall>u \<in> {0 ..< num_workers s}. worker_pc s u \<noteq> CL_block t) \<longrightarrow>
           blocks_run t (cleanup_trace s) = winners t (cleanup_trace s))
     \<and> (\<forall>w \<in> set (winners t (cleanup_trace s)). w < num_workers s)"

text \<open>Two workers that take their steps in turn, sixteen each.\<close>

definition two_workers :: "nat list" where
  "two_workers = concat (replicate 16 [0, 1])"

section \<open>Properties of the raw monitor\<close>

lemma run_append: "run (xs @ ys) s = run ys (run xs s)"
  by (induction xs arbitrary: s) auto

lemma calls_snoc: "calls (Suc k) t c = calls k t c @ [Call t c, Step t]"
  by (induction k) auto

subsection \<open>One step at each program point\<close>

lemma mstep_Idle: "pc (thr s self) = Idle \<Longrightarrow> mstep self s = s"
  by (simp add: mstep_def Let_def)

lemma mstep_RE_start:
  "\<not> vm_aborted s \<Longrightarrow> pc (thr s self) = RE_start \<Longrightarrow> mstep self s =
     (if is_Java_thread (thr s self) \<and> external_suspend (thr s self) then s
         else (case owner (mon s) of
                 None \<Rightarrow>
                   if recursions (mon s) \<noteq> 0 then vm_abort (s\<lparr>mon := (mon s)\<lparr>owner := Some self\<rparr>\<rparr>)
                   else return_to self M_OK (s\<lparr>mon := (mon s)\<lparr>owner := Some self\<rparr>\<rparr>)
               | Some c \<Rightarrow>
                   if c = self
                   then return_to self M_OK (s\<lparr>mon := (mon s)\<lparr>recursions := recursions (mon s) + 1\<rparr>\<rparr>)
                   else if \<not> is_Java_thread (thr s self) then set_pc self (SE_cas K_RE_finish) s
                   else set_pc self (SE_cas K_RE_loop) s))"
  by (simp add: mstep_def Let_def)

lemma mstep_RE_after_enter:
  "\<not> vm_aborted s \<Longrightarrow> pc (thr s self) = RE_after_enter \<Longrightarrow> mstep self s =
     (if \<not> external_suspend (thr s self) then set_pc self RE_finish s
         else set_pc self RE_suspend_self (simple_exit self s))"
  by (simp add: mstep_def Let_def)

lemma mstep_RE_suspend_self:
  "\<not> vm_aborted s \<Longrightarrow> pc (thr s self) = RE_suspend_self \<Longrightarrow> mstep self s =
     (if external_suspend (thr s self) then s else set_pc self (SE_cas K_RE_loop) s)"
  by (simp add: mstep_def Let_def)

lemma mstep_RE_finish:
  "\<not> vm_aborted s \<Longrightarrow> pc (thr s self) = RE_finish \<Longrightarrow> mstep self s =
     (if owner (mon s) \<noteq> Some self \<or> recursions (mon s) \<noteq> 0 then vm_abort s
         else return_to self M_OK s)"
  by (simp add: mstep_def Let_def)

lemma mstep_SE_cas:
  "\<not> vm_aborted s \<Longrightarrow> pc (thr s self) = SE_cas k \<Longrightarrow> mstep self s =
     (if owner (mon s) = None then set_pc self (cont_pc k) (s\<lparr>mon := (mon s)\<lparr>owner := Some self\<rparr>\<rparr>)
         else set_pc self (SE_enqueue k) s)"
  by (simp add: mstep_def Let_def)

lemma mstep_SE_enqueue:
  "\<not> vm_aborted s \<Longrightarrow> pc (thr s self) = SE_enqueue k \<Longrightarrow> mstep self s =
     (let s1 = upd_thr self (\<lambda>x. x\<lparr>park_event := False, node_t_state := TS_ENTER\<rparr>) s;
             s2 = s1\<lparr>mon := (mon s)\<lparr>entry_list := self # entry_list (mon s)\<rparr>\<rparr>
         in if owner (mon s) = None
            then set_pc self (cont_pc k) (s2\<lparr>mon := (mon s)\<lparr>owner := Some self\<rparr>\<rparr>)
            else set_pc self (SE_park k) s2)"
  by (simp add: mstep_def Let_def)

lemma mstep_SE_park:
  "\<not> vm_aborted s \<Longrightarrow> pc (thr s self) = SE_park k \<Longrightarrow> mstep self s =
     (if node_t_state (thr s self) = TS_ENTER then s
         else set_pc self (SE_cas k) (upd_thr self (\<lambda>x. x\<lparr>park_event := False\<rparr>) s))"
  by (simp add: mstep_def Let_def)

lemma mstep_RX_start:
  "\<not> vm_aborted s \<Longrightarrow> pc (thr s self) = RX_start \<Longrightarrow> mstep self s =
     ((case raw_exit self s of (r, s') \<Rightarrow> return_to self r s'))"
  by (simp add: mstep_def Let_def)

lemma mstep_RN_start:
  "\<not> vm_aborted s \<Longrightarrow> pc (thr s self) = RN_start all \<Longrightarrow> mstep self s =
     ((case (if all then raw_notifyAll self s else raw_notify self s) of
            (r, s') \<Rightarrow> return_to self r s'))"
  by (simp add: mstep_def Let_def)

lemma mstep_RW_start:
  "\<not> vm_aborted s \<Longrightarrow> pc (thr s self) = RW_start \<Longrightarrow> mstep self s =
     (if Some self \<noteq> owner (mon s) then return_to self M_ILLEGAL_MONITOR_STATE s
         else upd_thr self (\<lambda>x. x\<lparr>park_event := False, save := recursions (mon s), ret := M_OK,
                                   pc := SW_start\<rparr>)
                (s\<lparr>mon := (mon s)\<lparr>recursions := 0, waiters := waiters (mon s) + 1\<rparr>\<rparr>))"
  by (simp add: mstep_def Let_def)

lemma mstep_SW_start:
  "\<not> vm_aborted s \<Longrightarrow> pc (thr s self) = SW_start \<Longrightarrow> mstep self s =
     (if owner (mon s) \<noteq> Some self \<or> recursions (mon s) \<noteq> 0 then vm_abort s
         else upd_thr self (\<lambda>x. x\<lparr>ret := M_OK,
                 pc := (if is_Java_thread (thr s self) then SW_interrupt_check else SW_park)\<rparr>)
                (simple_exit self (enqueue_waiter self s)))"
  by (simp add: mstep_def Let_def)

lemma mstep_SW_interrupt_check:
  "\<not> vm_aborted s \<Longrightarrow> pc (thr s self) = SW_interrupt_check \<Longrightarrow> mstep self s =
     ((case is_interrupted_clear self s of
            (True, s') \<Rightarrow> upd_thr self (\<lambda>x. x\<lparr>ret := M_INTERRUPTED, pc := SW_post_check\<rparr>) s'
          | (False, s') \<Rightarrow> set_pc self SW_park s'))"
  by (simp add: mstep_def Let_def)

lemma mstep_SW_park:
  "\<not> vm_aborted s \<Longrightarrow> pc (thr s self) = SW_park \<Longrightarrow> mstep self s =
     (if \<not> park_event (thr s self) then s
         else upd_thr self (\<lambda>x. x\<lparr>park_event := False,
                 pc := (if is_Java_thread (thr s self) then SW_post_check else SW_dequeue)\<rparr>) s)"
  by (simp add: mstep_def Let_def)

lemma mstep_SW_post_check:
  "\<not> vm_aborted s \<Longrightarrow> pc (thr s self) = SW_post_check \<Longrightarrow> mstep self s =
     ((case is_interrupted_clear self s of
            (True, s') \<Rightarrow> upd_thr self (\<lambda>x. x\<lparr>ret := M_INTERRUPTED, pc := SW_dequeue\<rparr>) s'
          | (False, s') \<Rightarrow> set_pc self SW_dequeue s'))"
  by (simp add: mstep_def Let_def)

lemma mstep_SW_dequeue:
  "\<not> vm_aborted s \<Longrightarrow> pc (thr s self) = SW_dequeue \<Longrightarrow> mstep self s =
     (let s1 = dequeue_waiter self s
         in if vm_aborted s1 then s1 else set_pc self (SE_cas K_SW_finish) s1)"
  by (simp add: mstep_def Let_def)

lemma mstep_SW_finish:
  "\<not> vm_aborted s \<Longrightarrow> pc (thr s self) = SW_finish \<Longrightarrow> mstep self s =
     (if owner (mon s) \<noteq> Some self \<or> recursions (mon s) \<noteq> 0 then vm_abort s
         else set_pc self RW_after_wait s)"
  by (simp add: mstep_def Let_def)

lemma mstep_RW_after_wait:
  "\<not> vm_aborted s \<Longrightarrow> pc (thr s self) = RW_after_wait \<Longrightarrow> mstep self s =
     (let s1 = s\<lparr>mon := (mon s)\<lparr>recursions := save (thr s self), waiters := waiters (mon s) - 1\<rparr>\<rparr>
         in if Some self \<noteq> owner (mon s) then vm_abort s1
            else if is_Java_thread (thr s self) then set_pc self RW_loop s1
            else return_to self (ret (thr s self)) s1)"
  by (simp add: mstep_def Let_def)

lemma mstep_RW_loop:
  "\<not> vm_aborted s \<Longrightarrow> pc (thr s self) = RW_loop \<Longrightarrow> mstep self s =
     (if \<not> external_suspend (thr s self) then
           (if Some self \<noteq> owner (mon s) then vm_abort s else return_to self (ret (thr s self)) s)
         else set_pc self RW_suspended (simple_exit self s))"
  by (simp add: mstep_def Let_def)

lemma mstep_RW_suspended:
  "\<not> vm_aborted s \<Longrightarrow> pc (thr s self) = RW_suspended \<Longrightarrow> mstep self s =
     (if external_suspend (thr s self) then s
         else (case is_interrupted_clear self s of
                 (True, s') \<Rightarrow> upd_thr self (\<lambda>x. x\<lparr>ret := M_INTERRUPTED, pc := SE_cas K_RW_loop\<rparr>) s'
               | (False, s') \<Rightarrow> set_pc self (SE_cas K_RW_loop) s'))"
  by (simp add: mstep_def Let_def)

subsection \<open>Arithmetic of the recursion count\<close>

lemma sint_of_nat_small: "sint (of_nat m :: 32 word) = int m" if "m < 2 ^ 31"
proof -
  have "unat (of_nat m :: 32 word) = m"
    using that by (simp add: unat_of_nat)
  then have u: "uint (of_nat m :: 32 word) = int m"
    by (simp only: uint_nat)
  have "sint (of_nat m :: 32 word) = signed_take_bit 31 (int m)"
    by (simp only: sint_uint u) simp
  also have "\<dots> = int m"
    using that by (intro signed_take_bit_int_eq_self) auto
  finally show ?thesis .
qed

lemma of_nat_minus_one: "(of_nat n :: 32 word) - 1 = of_nat (n - 1)" if "0 < n"
  using that by (cases n) simp_all

subsection \<open>Calls by a thread that is not the owner\<close>

text \<open>
  C5.  A thread that is not the owner of the monitor calls \<open>raw_exit\<close>, \<open>raw_wait\<close>,
  \<open>raw_notify\<close> or \<open>raw_notifyAll\<close>: the call returns \<open>M_ILLEGAL_MONITOR_STATE\<close>, and
  the monitor (owner, recursions, entry list, wait set, waiter count) is as before; no
  thread is unparked and no other thread is touched.
\<close>

theorem non_owner_illegal_monitor_state:
  assumes "\<not> vm_aborted s" and "pc (thr s self) = Idle" and "owner (mon s) \<noteq> Some self"
    and "c \<in> {RawExit, RawWait ms, RawNotify, RawNotifyAll}"
  shows "result (thr (run [Call self c, Step self] s) self) = Some M_ILLEGAL_MONITOR_STATE
       \<and> pc (thr (run [Call self c, Step self] s) self) = Idle
       \<and> mon (run [Call self c, Step self] s) = mon s
       \<and> vm_aborted (run [Call self c, Step self] s) = False
       \<and> unparked (run [Call self c, Step self] s) = unparked s
       \<and> (\<forall>u. u \<noteq> self \<longrightarrow> thr (run [Call self c, Step self] s) u = thr s u)"
proof -
  let ?s1 = "do_action (Call self c) s"
  have na: "\<not> vm_aborted ?s1" and own: "Some self \<noteq> owner (mon ?s1)" and m: "mon ?s1 = mon s"
    and oth: "\<And>u. u \<noteq> self \<Longrightarrow> thr ?s1 u = thr s u" and un: "unparked ?s1 = unparked s"
    using assms(1-3) by (auto simp: upd_thr_def)
  have pcs: "pc (thr ?s1 self) = entry_pc c"
    using assms(1,2) by (simp add: upd_thr_def)
  have "mstep self ?s1 = return_to self M_ILLEGAL_MONITOR_STATE ?s1"
    using assms(4) na own pcs
    by (auto simp: mstep_RX_start mstep_RN_start mstep_RW_start raw_exit_def raw_notify_def
        raw_notifyAll_def)
  then show ?thesis
    using na m oth un by (simp add: return_to_def upd_thr_def)
qed

lemmas msys_eval = init_msys_def new_monitor_def idle_thread_def mstep_def upd_thr_def
  set_pc_def return_to_def raw_exit_def raw_notifyAll_def raw_notify_def simple_notify_def
  simple_exit_def enqueue_waiter_def dequeue_waiter_def unpark_def is_interrupted_clear_def
  vm_abort_def Let_def

theorem non_owner_illegal_monitor_state_witness:
  "\<not> vm_aborted (run [Call 0 RawEnter, Step 0] init_msys)
   \<and> pc (thr (run [Call 0 RawEnter, Step 0] init_msys) 1) = Idle
   \<and> owner (mon (run [Call 0 RawEnter, Step 0] init_msys)) \<noteq> Some 1
   \<and> RawWait 10 \<in> {RawExit, RawWait 10, RawNotify, RawNotifyAll}
   \<and> result (thr (run [Call 1 (RawWait 10), Step 1] (run [Call 0 RawEnter, Step 0] init_msys)) 1)
       = Some M_ILLEGAL_MONITOR_STATE
   \<and> mon (run [Call 1 (RawWait 10), Step 1] (run [Call 0 RawEnter, Step 0] init_msys))
       = mon (run [Call 0 RawEnter, Step 0] init_msys)"
proof -
  let ?s = "run [Call 0 RawEnter, Step 0] init_msys"
  have h1: "\<not> vm_aborted ?s" and h2: "pc (thr ?s 1) = Idle" and h3: "owner (mon ?s) \<noteq> Some 1"
    by (simp_all add: msys_eval)
  have h4: "RawWait 10 \<in> {RawExit, RawWait 10, RawNotify, RawNotifyAll}"
    by simp
  from non_owner_illegal_monitor_state [OF h1 h2 h3 h4] h1 h2 h3 h4
  show ?thesis by blast
qed

subsection \<open>Recursive enter and exit by one thread\<close>

lemma enter_free:
  assumes "can_run t s" "owner (mon s) = None" "recursions (mon s) = 0" "entry_nodes_ok s"
  shows "holds_monitor t (run [Call t RawEnter, Step t] s)
       \<and> recursions (mon (run [Call t RawEnter, Step t] s)) = 0
       \<and> result (thr (run [Call t RawEnter, Step t] s) t) = Some M_OK"
proof -
  let ?s1 = "do_action (Call t RawEnter) s"
  have 1: "\<not> vm_aborted ?s1" "pc (thr ?s1 t) = RE_start"
    using assms(1) by (auto simp: can_run_def upd_thr_def)
  show ?thesis
    using assms 1
    by (auto simp: mstep_RE_start holds_monitor_def can_run_def entry_nodes_ok_def
        return_to_def upd_thr_def)
qed

lemma enter_again:
  assumes "holds_monitor t s"
  shows "holds_monitor t (run [Call t RawEnter, Step t] s)
       \<and> recursions (mon (run [Call t RawEnter, Step t] s)) = recursions (mon s) + 1
       \<and> result (thr (run [Call t RawEnter, Step t] s) t) = Some M_OK"
proof -
  let ?s1 = "do_action (Call t RawEnter) s"
  have 1: "\<not> vm_aborted ?s1" "pc (thr ?s1 t) = RE_start"
    using assms by (auto simp: holds_monitor_def can_run_def upd_thr_def)
  show ?thesis
    using assms 1
    by (auto simp: mstep_RE_start holds_monitor_def can_run_def entry_nodes_ok_def
        return_to_def upd_thr_def)
qed

lemma exit_nested:
  assumes "holds_monitor t s" "0 < sint (recursions (mon s))"
  shows "holds_monitor t (run [Call t RawExit, Step t] s)
       \<and> recursions (mon (run [Call t RawExit, Step t] s)) = recursions (mon s) - 1
       \<and> result (thr (run [Call t RawExit, Step t] s) t) = Some M_OK"
proof -
  let ?s1 = "do_action (Call t RawExit) s"
  have 1: "\<not> vm_aborted ?s1" "pc (thr ?s1 t) = RX_start"
    using assms by (auto simp: holds_monitor_def can_run_def upd_thr_def)
  show ?thesis
    using assms 1
    by (auto simp: mstep_RX_start raw_exit_def holds_monitor_def can_run_def entry_nodes_ok_def
        return_to_def upd_thr_def)
qed

lemma exit_last:
  assumes "holds_monitor t s" "\<not> 0 < sint (recursions (mon s))"
  shows "owner (mon (run [Call t RawExit, Step t] s)) = None
       \<and> recursions (mon (run [Call t RawExit, Step t] s)) = recursions (mon s)
       \<and> can_run t (run [Call t RawExit, Step t] s)
       \<and> result (thr (run [Call t RawExit, Step t] s) t) = Some M_OK"
proof -
  let ?s1 = "do_action (Call t RawExit) s"
  have 1: "\<not> vm_aborted ?s1" "pc (thr ?s1 t) = RX_start"
    using assms by (auto simp: holds_monitor_def can_run_def upd_thr_def)
  show ?thesis
    using assms 1
    by (auto simp: mstep_RX_start raw_exit_def simple_exit_def unpark_def vm_abort_def Let_def
        holds_monitor_def can_run_def entry_nodes_ok_def
        return_to_def upd_thr_def split: list.splits)
qed

text \<open>After \<open>k + 1\<close> enters the count is \<open>k\<close> modulo \<open>2 ^ 32\<close>, whatever \<open>k\<close> is.\<close>

lemma enters_general:
  assumes "can_run t s" "owner (mon s) = None" "recursions (mon s) = 0" "entry_nodes_ok s"
  shows "holds_monitor t (run (calls (Suc k) t RawEnter) s)
       \<and> recursions (mon (run (calls (Suc k) t RawEnter) s)) = of_nat k
       \<and> result (thr (run (calls (Suc k) t RawEnter) s) t) = Some M_OK"
proof (induction k)
  case 0
  show ?case using enter_free [OF assms] by simp
next
  case (Suc k)
  let ?s = "run (calls (Suc k) t RawEnter) s"
  have eq: "run (calls (Suc (Suc k)) t RawEnter) s = run [Call t RawEnter, Step t] ?s"
    by (simp only: calls_snoc [of "Suc k"] run_append)
  let ?s' = "run [Call t RawEnter, Step t] ?s"
  have h: "holds_monitor t ?s" and r: "recursions (mon ?s) = of_nat k"
    using Suc by blast+
  from enter_again [OF h]
  have "holds_monitor t ?s'" and "recursions (mon ?s') = recursions (mon ?s) + 1"
    and "result (thr ?s' t) = Some M_OK"
    by blast+
  then show ?case
    unfolding eq using r by (simp del: run.simps)
qed

lemma exits_general:
  assumes "holds_monitor t s" "recursions (mon s) = of_nat n" "n < 2 ^ 31" "j \<le> n"
  shows "holds_monitor t (run (calls j t RawExit) s)
       \<and> recursions (mon (run (calls j t RawExit) s)) = of_nat (n - j)
       \<and> (0 < j \<longrightarrow> result (thr (run (calls j t RawExit) s) t) = Some M_OK)"
  using assms(4)
proof (induction j)
  case 0
  show ?case using assms by simp
next
  case (Suc j)
  let ?s = "run (calls j t RawExit) s"
  have eq: "run (calls (Suc j) t RawExit) s = run [Call t RawExit, Step t] ?s"
    by (simp only: calls_snoc run_append)
  have h: "holds_monitor t ?s" and r: "recursions (mon ?s) = of_nat (n - j)"
    using Suc by simp_all
  have "sint (recursions (mon ?s)) = int (n - j)"
    using assms(3) by (simp add: r sint_of_nat_small)
  then have pos: "0 < sint (recursions (mon ?s))"
    using Suc.prems by simp
  have w: "(of_nat (n - j) :: 32 word) - 1 = of_nat (n - Suc j)"
    using Suc.prems by (simp add: of_nat_minus_one)
  let ?s' = "run [Call t RawExit, Step t] ?s"
  from exit_nested [OF h pos]
  have "holds_monitor t ?s'" and "recursions (mon ?s') = recursions (mon ?s) - 1"
    and "result (thr ?s' t) = Some M_OK"
    by blast+
  then show ?case
    unfolding eq using r w by (simp del: run.simps)
qed

text \<open>
  C4, as the code has it.  On a monitor that nobody owns, a thread that is not suspended
  calls \<open>raw_enter\<close> \<open>k\<close> times and then \<open>raw_exit\<close> \<open>j \<le> k\<close> times, where
  \<open>1 \<le> k \<le> 2 ^ 31\<close> (the count is an \<open>int\<close>, and \<open>k\<close> enters leave \<open>k - 1\<close> in it).
  Every call returns \<open>M_OK\<close>.  While \<open>j < k\<close> the thread still owns the monitor and the
  count is \<open>k - 1 - j\<close>; at \<open>j = k\<close>, and only then, the owner is none again, as before
  the sequence, and the count is back at 0.
\<close>

theorem raw_monitor_recursion_parity:
  assumes "can_run t s" and "owner (mon s) = None" and "recursions (mon s) = 0"
    and "entry_nodes_ok s" and "1 \<le> k" and "k \<le> 2 ^ 31" and "j \<le> k"
  shows "\<not> vm_aborted (run (calls k t RawEnter @ calls j t RawExit) s)
       \<and> pc (thr (run (calls k t RawEnter @ calls j t RawExit) s) t) = Idle
       \<and> result (thr (run (calls k t RawEnter @ calls j t RawExit) s) t) = Some M_OK
       \<and> (j < k \<longrightarrow>
            owner (mon (run (calls k t RawEnter @ calls j t RawExit) s)) = Some t
          \<and> sint (recursions (mon (run (calls k t RawEnter @ calls j t RawExit) s)))
              = int k - 1 - int j)
       \<and> (j = k \<longrightarrow>
            owner (mon (run (calls k t RawEnter @ calls j t RawExit) s)) = owner (mon s)
          \<and> recursions (mon (run (calls k t RawEnter @ calls j t RawExit) s)) = 0)"
proof -
  obtain n where k: "k = Suc n" and n: "n < 2 ^ 31"
    using assms(5,6) by (cases k) auto
  let ?e = "run (calls k t RawEnter) s"
  have he: "holds_monitor t ?e" and re: "recursions (mon ?e) = of_nat n"
    and rese: "result (thr ?e t) = Some M_OK"
    using enters_general [OF assms(1-4), of n] by (simp_all add: k)
  show ?thesis
  proof (cases "j < k")
    case True
    then have jn: "j \<le> n" by (simp add: k)
    let ?x = "run (calls j t RawExit) ?e"
    from exits_general [OF he re n jn]
    have hx: "holds_monitor t ?x" and rx: "recursions (mon ?x) = of_nat (n - j)"
      and resx: "0 < j \<longrightarrow> result (thr ?x t) = Some M_OK"
      by blast+
    have "sint (recursions (mon ?x)) = int (n - j)"
      using n by (simp add: rx sint_of_nat_small)
    then have "sint (recursions (mon ?x)) = int k - 1 - int j"
      using jn by (simp add: k)
    moreover have "result (thr ?x t) = Some M_OK"
      using resx rese by (cases j) simp_all
    ultimately show ?thesis
      using hx True by (simp add: run_append holds_monitor_def can_run_def)
  next
    case False
    then have jk: "j = Suc n" using assms(7) by (simp add: k)
    let ?x = "run (calls n t RawExit) ?e"
    from exits_general [OF he re n order_refl]
    have hx: "holds_monitor t ?x" and rx: "recursions (mon ?x) = 0"
      by simp_all
    have eq: "run (calls k t RawEnter @ calls j t RawExit) s = run [Call t RawExit, Step t] ?x"
      by (simp only: jk calls_snoc run_append)
    have "\<not> 0 < sint (recursions (mon ?x))"
      by (simp add: rx)
    from exit_last [OF hx this] show ?thesis
      unfolding eq using jk k assms(2) rx by (simp add: can_run_def del: run.simps)
  qed
qed

lemma init_can_run: "can_run t init_msys"
  by (simp add: can_run_def init_msys_def idle_thread_def)

lemma init_entry_nodes_ok: "entry_nodes_ok init_msys"
  by (simp add: entry_nodes_ok_def init_msys_def new_monitor_def)

theorem raw_monitor_recursion_parity_witness:
  "can_run 7 init_msys \<and> owner (mon init_msys) = None \<and> recursions (mon init_msys) = 0
   \<and> entry_nodes_ok init_msys \<and> (1::nat) \<le> 5 \<and> (5::nat) \<le> 2 ^ 31 \<and> (3::nat) \<le> 5
   \<and> owner (mon (run (calls 5 7 RawEnter @ calls 3 7 RawExit) init_msys)) = Some 7
   \<and> sint (recursions (mon (run (calls 5 7 RawEnter @ calls 3 7 RawExit) init_msys))) = 1"
proof -
  have h2: "owner (mon init_msys) = None" and h3: "recursions (mon init_msys) = 0"
    by (simp_all add: init_msys_def new_monitor_def)
  have h5: "(1::nat) \<le> 5" and h6: "(5::nat) \<le> 2 ^ 31" and h7: "(3::nat) \<le> 5"
    by simp_all
  from raw_monitor_recursion_parity [OF init_can_run h2 h3 init_entry_nodes_ok h5 h6 h7]
  show ?thesis
    using init_can_run [of 7] h2 h3 init_entry_nodes_ok by simp
qed

text \<open>
  The claim as the spec states it, for every \<open>k\<close>, fails where the \<open>int\<close> count wraps:
  after \<open>2 ^ 31 + 1\<close> enters the count reads \<open>- 2 ^ 31\<close>, \<open>raw_exit\<close> takes the branch
  of \<open>simple_exit\<close>, and the first exit already leaves the monitor without an owner.
\<close>

theorem raw_monitor_recursion_parity_counterexample:
  "owner (mon (run (calls 2147483649 0 RawEnter @ calls 1 0 RawExit) init_msys)) = None"
proof -
  have k: "(2147483649::nat) = Suc 2147483648" by simp
  let ?e = "run (calls (Suc 2147483648) 0 RawEnter) init_msys"
  have h2: "owner (mon init_msys) = None" and h3: "recursions (mon init_msys) = 0"
    by (simp_all add: init_msys_def new_monitor_def)
  from enters_general [OF init_can_run h2 h3 init_entry_nodes_ok, of 0 2147483648]
  have he: "holds_monitor 0 ?e" and re: "recursions (mon ?e) = of_nat 2147483648"
    by blast+
  have "sint (of_nat 2147483648 :: 32 word) = - 2147483648"
    by simp
  then have "\<not> 0 < sint (recursions (mon ?e))"
    by (simp only: re)
  from exit_last [OF he this] have "owner (mon (run [Call 0 RawExit, Step 0] ?e)) = None"
    by blast
  moreover have "calls 1 0 RawExit = [Call 0 RawExit, Step 0]"
    by (simp add: numeral_eq_Suc)
  ultimately show ?thesis
    by (simp only: k run_append)
qed

subsection \<open>The order of the entry list\<close>

lemma contend_one:
  assumes "holds_monitor ow s" and "t \<noteq> ow" and "can_run t s"
  shows "mon (run (contend t) s) = (mon s)\<lparr>entry_list := t # entry_list (mon s)\<rparr>"
    and "contender t (run (contend t) s)"
    and "\<And>u. u \<noteq> t \<Longrightarrow> thr (run (contend t) s) u = thr s u"
    and "vm_aborted (run (contend t) s) = False"
    and "unparked (run (contend t) s) = unparked s"
proof -
  let ?k = "if is_Java_thread (thr s t) then K_RE_loop else K_RE_finish"
  let ?s1 = "upd_thr t (\<lambda>x. x\<lparr>pc := RE_start, millis := 0, result := None\<rparr>) s"
  have s1: "do_action (Call t RawEnter) s = ?s1"
    using assms(3) by (simp add: can_run_def)
  have own: "owner (mon s) = Some ow" and na: "\<not> vm_aborted s"
    and ns: "\<not> (is_Java_thread (thr s t) \<and> external_suspend (thr s t))"
    using assms by (auto simp: holds_monitor_def can_run_def)
  have s2: "mstep t ?s1 = set_pc t (SE_cas ?k) ?s1"
    using own na ns assms(2) by (subst mstep_RE_start) (auto simp: upd_thr_def)
  have s3: "mstep t (set_pc t (SE_cas ?k) ?s1) = set_pc t (SE_enqueue ?k) ?s1"
    using own na by (subst mstep_SE_cas [where k = ?k]) (auto simp: upd_thr_def set_pc_def)
  have s4: "mstep t (set_pc t (SE_enqueue ?k) ?s1)
      = upd_thr t (\<lambda>x. x\<lparr>park_event := False, node_t_state := TS_ENTER, pc := SE_park ?k\<rparr>)
          (?s1\<lparr>mon := (mon s)\<lparr>entry_list := t # entry_list (mon s)\<rparr>\<rparr>)"
    using own na
    by (subst mstep_SE_enqueue [where k = ?k]) (auto simp: upd_thr_def set_pc_def Let_def)
  have r: "run (contend t) s
      = upd_thr t (\<lambda>x. x\<lparr>park_event := False, node_t_state := TS_ENTER, pc := SE_park ?k\<rparr>)
          (?s1\<lparr>mon := (mon s)\<lparr>entry_list := t # entry_list (mon s)\<rparr>\<rparr>)"
    by (simp only: contend_def run.simps do_action.simps(2) s1 s2 s3 s4)
  show "mon (run (contend t) s) = (mon s)\<lparr>entry_list := t # entry_list (mon s)\<rparr>"
    by (simp add: r upd_thr_def)
  show "contender t (run (contend t) s)"
    using ns by (simp add: r upd_thr_def contender_def)
  show "\<And>u. u \<noteq> t \<Longrightarrow> thr (run (contend t) s) u = thr s u"
    by (simp add: r upd_thr_def)
  show "vm_aborted (run (contend t) s) = False"
    using na by (simp add: r upd_thr_def)
  show "unparked (run (contend t) s) = unparked s"
    by (simp add: r upd_thr_def)
qed

lemma contend_many:
  assumes "holds_monitor ow s" and "ow \<notin> set ts" and "distinct ts"
    and "\<forall>t \<in> set ts. can_run t s"
  shows "mon (run (concat (map contend ts)) s)
           = (mon s)\<lparr>entry_list := rev ts @ entry_list (mon s)\<rparr>
       \<and> (\<forall>t \<in> set ts. contender t (run (concat (map contend ts)) s))
       \<and> (\<forall>u. u \<notin> set ts \<longrightarrow> thr (run (concat (map contend ts)) s) u = thr s u)
       \<and> vm_aborted (run (concat (map contend ts)) s) = False
       \<and> unparked (run (concat (map contend ts)) s) = unparked s"
  using assms
proof (induction ts arbitrary: s)
  case Nil
  then show ?case by (simp add: holds_monitor_def can_run_def)
next
  case (Cons t ts)
  let ?s1 = "run (contend t) s"
  have t: "t \<noteq> ow" "can_run t s" "t \<notin> set ts"
    using Cons.prems by auto
  note c = contend_one [OF Cons.prems(1) t(1,2)]
  have "node_t_state (thr ?s1 w) = TS_ENTER" if "w \<in> set (t # entry_list (mon s))" for w
  proof (cases "w = t")
    case True
    then show ?thesis using c(2) by (simp add: contender_def)
  next
    case False
    then show ?thesis
      using that Cons.prems(1) c(3) by (simp add: holds_monitor_def entry_nodes_ok_def)
  qed
  then have e1: "entry_nodes_ok ?s1"
    by (simp add: entry_nodes_ok_def c(1))
  have h1: "holds_monitor ow ?s1"
    using Cons.prems(1) t(1) c(1,3,4) e1
    by (simp add: holds_monitor_def can_run_def)
  have r1: "\<forall>u \<in> set ts. can_run u ?s1"
  proof
    fix u assume u: "u \<in> set ts"
    then have "u \<noteq> t" using t(3) by auto
    then have "thr ?s1 u = thr s u" by (rule c(3))
    moreover have "can_run u s" using Cons.prems(4) u by simp
    ultimately show "can_run u ?s1" using c(4) by (simp add: can_run_def)
  qed
  have "ow \<notin> set ts" "distinct ts"
    using Cons.prems by auto
  note ih = Cons.IH [OF h1 this r1]
  have eq: "run (concat (map contend (t # ts))) s = run (concat (map contend ts)) ?s1"
    by (simp add: run_append)
  have ft: "thr (run (concat (map contend ts)) ?s1) t = thr ?s1 t"
    using ih t(3) by blast
  have ct: "contender t (run (concat (map contend ts)) ?s1)"
    using c(2) by (simp add: contender_def ft)
  have fr: "thr (run (concat (map contend ts)) ?s1) u = thr s u" if "u \<notin> set (t # ts)" for u
  proof -
    have "thr (run (concat (map contend ts)) ?s1) u = thr ?s1 u"
      using ih that by auto
    then show ?thesis using c(3) [of u] that by simp
  qed
  show ?case
    unfolding eq using ih ct fr c(1,5) by simp
qed

lemma handoff:
  assumes "holds_monitor ow s" and "recursions (mon s) = 0"
    and "entry_list (mon s) = w # ws" and "w \<noteq> ow" and "contender w s"
  shows "unparked (run [Call ow RawExit, Step ow] s) = unparked s @ [w]"
    and "mon (run [Step w, Step w, Step w, Step w] (run [Call ow RawExit, Step ow] s))
           = (mon s)\<lparr>owner := Some w, entry_list := ws\<rparr>"
    and "can_run w (run [Step w, Step w, Step w, Step w] (run [Call ow RawExit, Step ow] s))"
    and "\<And>u. u \<noteq> w \<Longrightarrow> u \<noteq> ow \<Longrightarrow>
          thr (run [Step w, Step w, Step w, Step w] (run [Call ow RawExit, Step ow] s)) u = thr s u"
    and "unparked (run [Step w, Step w, Step w, Step w] (run [Call ow RawExit, Step ow] s))
           = unparked s @ [w]"
proof -
  let ?k = "if is_Java_thread (thr s w) then K_RE_loop else K_RE_finish"
  have own: "owner (mon s) = Some ow" and na: "\<not> vm_aborted s" and idle: "pc (thr s ow) = Idle"
    using assms(1) by (auto simp: holds_monitor_def can_run_def)
  have w: "pc (thr s w) = SE_park ?k" "node_t_state (thr s w) = TS_ENTER"
    "\<not> (is_Java_thread (thr s w) \<and> external_suspend (thr s w))"
    using assms(5) by (auto simp: contender_def)
  let ?s1 = "upd_thr ow (\<lambda>x. x\<lparr>pc := RX_start, millis := 0, result := None\<rparr>) s"
  have s1: "do_action (Call ow RawExit) s = ?s1"
    using na idle by simp
  let ?s2 = "return_to ow M_OK (simple_exit ow ?s1)"
  have s2: "mstep ow ?s1 = ?s2"
    using own na assms(2)
    by (subst mstep_RX_start) (auto simp: upd_thr_def raw_exit_def)
  have x: "simple_exit ow ?s1
      = unpark w (upd_thr w (\<lambda>x. x\<lparr>node_t_state := TS_RUN\<rparr>)
          (?s1\<lparr>mon := (mon s)\<lparr>owner := None, entry_list := ws\<rparr>\<rparr>))"
    using own assms(3,4) w(2) by (simp add: simple_exit_def upd_thr_def Let_def)
  have r2: "run [Call ow RawExit, Step ow] s = ?s2"
    by (simp only: run.simps do_action.simps(2) s1 s2)
  show "unparked (run [Call ow RawExit, Step ow] s) = unparked s @ [w]"
    unfolding r2 x by (simp add: return_to_def unpark_def upd_thr_def)
  have f2: "\<not> vm_aborted ?s2" "pc (thr ?s2 w) = SE_park ?k" "node_t_state (thr ?s2 w) = TS_RUN"
    "mon ?s2 = (mon s)\<lparr>owner := None, entry_list := ws\<rparr>"
    "is_Java_thread (thr ?s2 w) = is_Java_thread (thr s w)"
    "external_suspend (thr ?s2 w) = external_suspend (thr s w)"
    "unparked ?s2 = unparked s @ [w]"
    "\<And>u. u \<noteq> w \<Longrightarrow> u \<noteq> ow \<Longrightarrow> thr ?s2 u = thr s u"
    unfolding x using na w(1) assms(4) by (simp_all add: return_to_def unpark_def upd_thr_def)
  let ?s3 = "set_pc w (SE_cas ?k) (upd_thr w (\<lambda>x. x\<lparr>park_event := False\<rparr>) ?s2)"
  have s3: "mstep w ?s2 = ?s3"
    using f2(1-3) by (subst mstep_SE_park [where k = ?k]) auto
  let ?s4 = "set_pc w (cont_pc ?k) (?s3\<lparr>mon := (mon s)\<lparr>owner := Some w, entry_list := ws\<rparr>\<rparr>)"
  have s4: "mstep w ?s3 = ?s4"
    using f2(1,4)
    by (subst mstep_SE_cas [where k = ?k]) (auto simp: set_pc_def upd_thr_def)
  let ?s6 = "return_to w M_OK ?s4"
  have s56: "mstep w (mstep w ?s4) = ?s6"
  proof (cases "is_Java_thread (thr s w)")
    case True
    then have ns: "\<not> external_suspend (thr s w)" using w(3) by simp
    have a: "mstep w ?s4 = set_pc w RE_finish ?s4"
      using True ns f2(1,5,6)
      by (subst mstep_RE_after_enter) (auto simp: set_pc_def upd_thr_def)
    have b: "mstep w (set_pc w RE_finish ?s4) = return_to w M_OK (set_pc w RE_finish ?s4)"
      using f2(1) assms(2)
      by (subst mstep_RE_finish) (auto simp: set_pc_def upd_thr_def)
    show ?thesis
      by (simp add: a b) (simp add: return_to_def set_pc_def upd_thr_def)
  next
    case False
    have a: "mstep w ?s4 = return_to w M_OK ?s4"
      using False f2(1) assms(2)
      by (subst mstep_RE_finish) (auto simp: set_pc_def upd_thr_def)
    have b: "mstep w (return_to w M_OK ?s4) = return_to w M_OK ?s4"
      by (rule mstep_Idle) (simp add: return_to_def upd_thr_def)
    show ?thesis
      by (simp add: a b)
  qed
  have r6: "run [Step w, Step w, Step w, Step w] (run [Call ow RawExit, Step ow] s) = ?s6"
    by (simp only: run.simps do_action.simps(2) s1 s2 s3 s4 s56)
  show "mon (run [Step w, Step w, Step w, Step w] (run [Call ow RawExit, Step ow] s))
           = (mon s)\<lparr>owner := Some w, entry_list := ws\<rparr>"
    unfolding r6 by (simp add: return_to_def set_pc_def upd_thr_def)
  show "can_run w (run [Step w, Step w, Step w, Step w] (run [Call ow RawExit, Step ow] s))"
    unfolding r6 using f2(1,5,6) w(3) by (simp add: can_run_def return_to_def set_pc_def upd_thr_def)
  show "\<And>u. u \<noteq> w \<Longrightarrow> u \<noteq> ow \<Longrightarrow>
          thr (run [Step w, Step w, Step w, Step w] (run [Call ow RawExit, Step ow] s)) u = thr s u"
    unfolding r6 using f2(8) by (simp add: return_to_def set_pc_def upd_thr_def)
  show "unparked (run [Step w, Step w, Step w, Step w] (run [Call ow RawExit, Step ow] s))
           = unparked s @ [w]"
    unfolding r6 using f2(7) by (simp add: return_to_def set_pc_def upd_thr_def)
qed

lemma drain_wakes_in_list_order:
  assumes "holds_monitor ow s" and "recursions (mon s) = 0" and "entry_list (mon s) = ws"
    and "distinct ws" and "ow \<notin> set ws" and "\<forall>w \<in> set ws. contender w s"
  shows "unparked (drain (length ws) s) = unparked s @ ws"
  using assms
proof (induction ws arbitrary: s ow)
  case Nil
  then show ?case by simp
next
  case (Cons w ws)
  let ?s1 = "run [Call ow RawExit, Step ow] s"
  let ?s2 = "run [Step w, Step w, Step w, Step w] ?s1"
  have w: "w \<noteq> ow" "contender w s" "entry_list (mon s) = w # ws" "w \<notin> set ws"
    using Cons.prems by auto
  note h = handoff [OF Cons.prems(1,2) w(3,1,2)]
  have own: "owner (mon s) = Some ow"
    using Cons.prems(1) by (simp add: holds_monitor_def)
  have fr: "thr ?s2 u = thr s u" if "u \<in> set ws" for u
  proof -
    have "u \<noteq> w" "u \<noteq> ow" using that w(4) Cons.prems(5) by auto
    then show ?thesis by (rule h(4))
  qed
  have "entry_nodes_ok ?s2"
    unfolding entry_nodes_ok_def h(2) using fr Cons.prems(6) by (simp add: contender_def)
  then have h2: "holds_monitor w ?s2"
    using h(2,3) by (simp add: holds_monitor_def)
  have r2: "recursions (mon ?s2) = 0" and e2: "entry_list (mon ?s2) = ws"
    unfolding h(2) using Cons.prems(2) by simp_all
  have c2: "\<forall>u \<in> set ws. contender u ?s2"
    using fr Cons.prems(6) by (simp add: contender_def)
  have "distinct ws" using Cons.prems(4) by simp
  note ih = Cons.IH [OF h2 r2 e2 this w(4) c2]
  have "drain (length (w # ws)) s = drain (length ws) ?s2"
    using own h(1) by (simp del: run.simps)
  then show ?case
    using ih h(5) by (simp del: run.simps)
qed

text \<open>
  C3, as the code has it.  \<open>simple_enter\<close> pushes its node at the head of
  \<open>_entry_list\<close> and \<open>simple_exit\<close> pops the head: the entry list is a stack.  Threads
  \<open>ts\<close> contend, in this order, for a monitor that \<open>ow\<close> holds; the entry list is then
  \<open>rev ts\<close>, and when the monitor is handed on from exit to exit the threads are woken in
  the order \<open>rev ts\<close>: each exit wakes the node enqueued last among those still there.
\<close>

theorem entry_queue_is_lifo:
  assumes "holds_monitor ow s" and "recursions (mon s) = 0" and "entry_list (mon s) = []"
    and "distinct ts" and "ow \<notin> set ts" and "\<forall>t \<in> set ts. can_run t s"
  shows "entry_list (mon (run (concat (map contend ts)) s)) = rev ts
       \<and> unparked (drain (length ts) (run (concat (map contend ts)) s)) = unparked s @ rev ts"
proof -
  let ?s1 = "run (concat (map contend ts)) s"
  from contend_many [OF assms(1,5,4,6)]
  have m: "mon ?s1 = (mon s)\<lparr>entry_list := rev ts @ entry_list (mon s)\<rparr>"
    and c: "\<forall>t \<in> set ts. contender t ?s1"
    and f: "\<forall>u. u \<notin> set ts \<longrightarrow> thr ?s1 u = thr s u"
    and a: "vm_aborted ?s1 = False" and u: "unparked ?s1 = unparked s"
    by blast+
  have e: "entry_list (mon ?s1) = rev ts"
    by (simp add: m assms(3))
  have "entry_nodes_ok ?s1"
    unfolding entry_nodes_ok_def e using c by (simp add: contender_def)
  moreover have "thr ?s1 ow = thr s ow"
    using f assms(5) by blast
  ultimately have h: "holds_monitor ow ?s1"
    using assms(1) a m by (simp add: holds_monitor_def can_run_def)
  have r: "recursions (mon ?s1) = 0"
    by (simp add: m assms(2))
  have "unparked (drain (length (rev ts)) ?s1) = unparked ?s1 @ rev ts"
    by (rule drain_wakes_in_list_order [OF h r e]) (use assms(4,5) c in auto)
  then show ?thesis
    using e u by simp
qed

lemma held_by_0:
  "holds_monitor 0 (run [Call 0 RawEnter, Step 0] init_msys)"
  "recursions (mon (run [Call 0 RawEnter, Step 0] init_msys)) = 0"
  "entry_list (mon (run [Call 0 RawEnter, Step 0] init_msys)) = []"
  "unparked (run [Call 0 RawEnter, Step 0] init_msys) = []"
  "can_run (Suc t) (run [Call 0 RawEnter, Step 0] init_msys)"
  by (simp_all add: holds_monitor_def can_run_def entry_nodes_ok_def msys_eval)

theorem entry_queue_is_lifo_witness:
  "holds_monitor 0 (run [Call 0 RawEnter, Step 0] init_msys)
   \<and> recursions (mon (run [Call 0 RawEnter, Step 0] init_msys)) = 0
   \<and> entry_list (mon (run [Call 0 RawEnter, Step 0] init_msys)) = []
   \<and> distinct [1, 2, 3 :: nat] \<and> 0 \<notin> set [1, 2, 3 :: nat]
   \<and> can_run 1 (run [Call 0 RawEnter, Step 0] init_msys)
   \<and> can_run 2 (run [Call 0 RawEnter, Step 0] init_msys)
   \<and> can_run 3 (run [Call 0 RawEnter, Step 0] init_msys)
   \<and> entry_list (mon (run (concat (map contend [1, 2, 3]))
         (run [Call 0 RawEnter, Step 0] init_msys))) = [3, 2, 1]
   \<and> unparked (drain 3 (run (concat (map contend [1, 2, 3]))
         (run [Call 0 RawEnter, Step 0] init_msys))) = [3, 2, 1]"
proof -
  let ?s = "run [Call 0 RawEnter, Step 0] init_msys"
  have h4: "distinct [1, 2, 3 :: nat]" and h5: "0 \<notin> set [1, 2, 3 :: nat]"
    by simp_all
  have h6: "\<forall>t \<in> set [1, 2, 3]. can_run t ?s"
    using held_by_0(5) [of 0] held_by_0(5) [of 1] held_by_0(5) [of 2]
    by (simp add: numeral_eq_Suc del: run.simps)
  have l: "length [1, 2, 3 :: nat] = 3" and rv: "rev [1, 2, 3 :: nat] = [3, 2, 1]"
    by simp_all
  note lifo = entry_queue_is_lifo [OF held_by_0(1,2,3) h4 h5 h6,
      unfolded l rv held_by_0(4) append_Nil]
  have "can_run 1 ?s" and "can_run 2 ?s" and "can_run 3 ?s"
    using h6 by simp_all
  then show ?thesis
    using held_by_0(1,2,3) h4 h5 lifo by blast
qed

text \<open>
  The claim as the spec states it, first in first out, fails with two contenders: thread 1
  is enqueued before thread 2, and the exit of the owner wakes thread 2 and leaves thread 1
  on the list.
\<close>

theorem entry_queue_fifo_counterexample:
  "unparked (run ([Call 0 RawEnter, Step 0] @ contend 1 @ contend 2 @ [Call 0 RawExit, Step 0])
      init_msys) = [2]
   \<and> entry_list (mon (run ([Call 0 RawEnter, Step 0] @ contend 1 @ contend 2
      @ [Call 0 RawExit, Step 0]) init_msys)) = [1]"
  by (simp add: contend_def msys_eval)

subsection \<open>Waiting\<close>

text \<open>
  Scenario S4 runs as the spec says: \<open>raw_wait\<close> returns \<open>M_INTERRUPTED\<close>, the caller owns
  the monitor again and the count is the one it had at the call.
\<close>

lemma interrupted_wait_returns_interrupted:
  "result (thr (run interrupted_wait init_msys) 1) = Some M_INTERRUPTED
   \<and> pc (thr (run interrupted_wait init_msys) 1) = Idle
   \<and> owner (mon (run interrupted_wait init_msys)) = Some 1
   \<and> recursions (mon (run interrupted_wait init_msys)) = 1
   \<and> recursions (mon (run (take 4 interrupted_wait) init_msys)) = 1
   \<and> \<not> vm_aborted (run interrupted_wait init_msys)"
  by (simp add: interrupted_wait_def msys_eval)

text \<open>
  C6 at the schedule \<open>suspended_waiters\<close>.  Thread 2 calls \<open>raw_wait\<close> owning the monitor
  with count 0.  \<open>raw_wait\<close> puts the saved count back right after \<open>simple_wait\<close>, before
  the loop that gives the monitor up for a suspension and takes it again; thread 1, suspended
  in that loop, has left its own count 3 in the unowned monitor, and nothing after the
  \<open>simple_enter\<close> of the loop writes the count again.  \<open>raw_wait\<close> of thread 2 returns
  \<open>M_OK\<close> with thread 2 as owner and the count at 3.
\<close>

theorem raw_wait_recursions_lost_after_suspension:
  "owner (mon (run (take 2 suspended_waiters) init_msys)) = Some 2
   \<and> recursions (mon (run (take 2 suspended_waiters) init_msys)) = 0
   \<and> pc (thr (run (take 3 suspended_waiters) init_msys) 2) = RW_start
   \<and> result (thr (run suspended_waiters init_msys) 2) = Some M_OK
   \<and> pc (thr (run suspended_waiters init_msys) 2) = Idle
   \<and> owner (mon (run suspended_waiters init_msys)) = Some 2
   \<and> recursions (mon (run suspended_waiters init_msys)) = 3
   \<and> \<not> vm_aborted (run suspended_waiters init_msys)"
  by (simp add: suspended_waiters_def msys_eval)

section \<open>Properties of the safepoint protocol\<close>

subsection \<open>Examining threads changes nothing else\<close>

lemma account_safe_thread_view:
  "coordinator_view (account_safe_thread t s) = coordinator_view s"
  by (simp add: account_safe_thread_def coordinator_view_def upd_jt_def Let_def)

lemma examine_view:
  "coordinator_view (examine_state_of_thread t c s) = coordinator_view s"
  by (simp add: examine_state_of_thread_def account_safe_thread_view Let_def split: option.splits)
     (simp add: coordinator_view_def upd_jt_def)

lemma thread_not_running_view:
  "coordinator_view (snd (thread_not_running t s)) = coordinator_view s"
  by (simp add: thread_not_running_def examine_view Let_def)

lemma sync_pass_view:
  "coordinator_view (snd (sync_pass ts s)) = coordinator_view s"
proof (induction ts arbitrary: s)
  case Nil
  show ?case by simp
next
  case (Cons t ts)
  obtain b s1 where tn: "thread_not_running t s = (b, s1)"
    by (cases "thread_not_running t s")
  have v1: "coordinator_view s1 = coordinator_view s"
    using thread_not_running_view [of t s] by (simp add: tn)
  show ?case
  proof (cases b)
    case True
    have "coordinator_view (s1\<lparr>still_running := still_running s1 - 1\<rparr>) = coordinator_view s1"
      by (simp add: coordinator_view_def)
    then show ?thesis
      using Cons.IH [of "s1\<lparr>still_running := still_running s1 - 1\<rparr>"] v1 True
      by (simp add: tn)
  next
    case False
    then show ?thesis
      using Cons.IH [of s1] v1 by (auto simp: tn split: prod.splits)
  qed
qed

lemma sync_pass_proj:
  assumes "sync_pass ts x = (l, s2)"
  shows "sp_state s2 = sp_state x" "safepoint_counter s2 = safepoint_counter x" "cpc s2 = cpc x"
    "trace s2 = trace x" "fatal_error s2 = fatal_error x" "clock s2 = clock x"
    "start_time s2 = start_time x" "iterations s2 = iterations x" "config s2 = config x"
  using sync_pass_view [of ts x] assms by (simp_all add: coordinator_view_def)

lemma synchronize_first_parity:
  "sp_state (synchronize_first s) = sp_state s"
  "safepoint_counter (synchronize_first s) = safepoint_counter s"
  "cpc (synchronize_first s) = C_sync_loop \<or> cpc (synchronize_first s) = C_set_synchronized"
  by (auto simp: synchronize_first_def Let_def split: prod.splits dest: sync_pass_proj)

lemma check_timeout_proj:
  "sp_state (check_timeout s) = sp_state s"
  "safepoint_counter (check_timeout s) = safepoint_counter s"
  "cpc (check_timeout s) = cpc s"
  by (simp_all add: check_timeout_def print_safepoint_timeout_def emit_def fatal_def Let_def)

lemma turn_pass_parity:
  "sp_state (turn_pass s) = sp_state s"
  "safepoint_counter (turn_pass s) = safepoint_counter s"
  "cpc (turn_pass s) = cpc s \<or> cpc (turn_pass s) = C_set_synchronized"
  by (auto simp: turn_pass_def back_off_def emit_def Let_def split: prod.splits dest: sync_pass_proj)

lemma synchronize_turn_parity:
  "sp_state (synchronize_turn s) = sp_state s"
  "safepoint_counter (synchronize_turn s) = safepoint_counter s"
  "cpc (synchronize_turn s) = cpc s \<or> cpc (synchronize_turn s) = C_set_synchronized"
  using turn_pass_parity [of "check_timeout s"]
  by (auto simp: synchronize_turn_def Let_def check_timeout_proj fatal_def)

subsection \<open>Parity of the counter and the global state\<close>

lemma cstep_parity: "parity_inv s \<Longrightarrow> parity_inv (cstep s)"
proof (cases "fatal_error s")
  case True
  then show "parity_inv s \<Longrightarrow> parity_inv (cstep s)" by (simp add: cstep_def)
next
  case False
  assume inv: "parity_inv s"
  show "parity_inv (cstep s)"
  proof (cases "cpc s")
    case C_sync_first
    then show ?thesis
      using inv False synchronize_first_parity [of s]
      by (auto simp: cstep_def parity_inv_def)
  next
    case C_sync_loop
    then show ?thesis
      using inv False synchronize_turn_parity [of s]
      by (auto simp: cstep_def parity_inv_def)
  qed (use inv False in \<open>auto simp: cstep_def parity_inv_def begin_setup_def wait_barrier_arm_def
      store_safepoint_counter_def set_sp_state_def arm_local_polls_def arm_polling_page_def
      disarm_polling_page_def restart_threads_def wait_barrier_disarm_def emit_def fatal_def
      Let_def\<close>)
qed

lemma wstep_coord:
  "sp_state (wstep t s) = sp_state s" "safepoint_counter (wstep t s) = safepoint_counter s"
  "cpc (wstep t s) = cpc s"
  by (simp_all add: wstep_def upd_jt_def emit_def fatal_def Let_def split: wpc.splits)

lemma action_parity: "parity_inv s \<Longrightarrow> parity_inv (do_sp_action a s)"
  by (cases a) (simp_all add: cstep_parity, simp_all add: parity_inv_def wstep_coord upd_jt_def emit_def)

lemma run_parity: "parity_inv s \<Longrightarrow> parity_inv (sp_run sch s)"
  by (induction sch arbitrary: s) (simp_all add: action_parity)

lemma init_parity: "parity_inv (sp_init cfg n ths)"
  by (simp add: parity_inv_def sp_init_def)

subsection \<open>The counter, store by store\<close>

lemma spec_trace_Suc: "spec_trace (Suc k) = spec_trace k @ cycle_trace k"
  by (simp add: spec_trace_def)

lemma synchronize_first_trace: "trace (synchronize_first s) = trace s"
  by (auto simp: synchronize_first_def Let_def split: prod.splits dest: sync_pass_proj)

lemma check_timeout_trace:
  "counter_events (trace (check_timeout s)) = counter_events (trace s)"
  "stores (trace (check_timeout s)) = stores (trace s)"
  by (simp_all add: check_timeout_def print_safepoint_timeout_def emit_def fatal_def Let_def
      counter_events_def stores_def)

lemma turn_pass_trace:
  "counter_events (trace (turn_pass s)) = counter_events (trace s)"
  "stores (trace (turn_pass s)) = stores (trace s)"
  by (auto simp: turn_pass_def back_off_def emit_def Let_def counter_events_def stores_def
      split: prod.splits dest: sync_pass_proj)

lemma synchronize_turn_trace:
  "counter_events (trace (synchronize_turn s)) = counter_events (trace s)"
  "stores (trace (synchronize_turn s)) = stores (trace s)"
  by (simp_all add: synchronize_turn_def Let_def check_timeout_trace turn_pass_trace fatal_def)

lemma cstep_stepping:
  assumes "stepping_inv k s"
  shows "stepping_inv (if cpc s = C_disarm_barrier \<and> \<not> fatal_error s then Suc k else k) (cstep s)"
proof (cases "fatal_error s")
  case True
  then show ?thesis using assms by (simp add: cstep_def)
next
  case False
  show ?thesis
  proof (cases "cpc s")
    case C_sync_first
    then show ?thesis
      using assms False synchronize_first_parity [of s]
      by (auto simp: cstep_def stepping_inv_def synchronize_first_trace)
  next
    case C_sync_loop
    then show ?thesis
      using assms False synchronize_turn_parity [of s]
      by (auto simp: cstep_def stepping_inv_def synchronize_turn_trace)
  next
    case C_disarm_barrier
    then show ?thesis
      using assms False
      by (simp add: cstep_def stepping_inv_def wait_barrier_disarm_def emit_def
          counter_events_def stores_def spec_trace_Suc cycle_trace_def)
  qed (use assms False in \<open>auto simp: cstep_def stepping_inv_def begin_setup_def wait_barrier_arm_def
      store_safepoint_counter_def set_sp_state_def arm_local_polls_def arm_polling_page_def
      disarm_polling_page_def restart_threads_def emit_def fatal_def
      counter_events_def stores_def cycle_trace_def Let_def\<close>)
qed

lemma wstep_trace:
  "counter_events (trace (wstep t s)) = counter_events (trace s)"
  "stores (trace (wstep t s)) = stores (trace s)"
  by (cases "wpc (jthreads s t)";
      simp add: wstep_def upd_jt_def emit_def fatal_def Let_def counter_events_def stores_def)+

lemma action_stepping:
  assumes "stepping_inv k s"
  shows "\<exists>k'. stepping_inv k' (do_sp_action a s)
     \<and> 2 * k + stores_at (cpc s) \<le> 2 * k' + stores_at (cpc (do_sp_action a s))"
proof (cases a)
  case Coord
  let ?k' = "if cpc s = C_disarm_barrier \<and> \<not> fatal_error s then Suc k else k"
  have "stepping_inv ?k' (cstep s)"
    by (rule cstep_stepping [OF assms])
  moreover have "2 * k + stores_at (cpc s) \<le> 2 * ?k' + stores_at (cpc (cstep s))"
  proof (cases "fatal_error s")
    case True
    then show ?thesis by (simp add: cstep_def)
  next
    case False
    then show ?thesis
      using synchronize_first_parity(3) [of s] synchronize_turn_parity(3) [of s]
      by (cases "cpc s") (auto simp: cstep_def)
  qed
  ultimately show ?thesis using Coord by auto
next
  case (Worker t)
  then show ?thesis
    using assms by (auto simp: stepping_inv_def wstep_trace wstep_coord)
qed (use assms in \<open>auto simp: stepping_inv_def upd_jt_def emit_def counter_events_def stores_def\<close>)

lemma run_stepping:
  assumes "stepping_inv k s"
  shows "\<exists>k'. stepping_inv k' (sp_run sch s)
     \<and> 2 * k + stores_at (cpc s) \<le> 2 * k' + stores_at (cpc (sp_run sch s))"
  using assms
proof (induction sch arbitrary: k s)
  case Nil
  then show ?case by auto
next
  case (Cons a sch)
  from action_stepping [OF Cons.prems, of a] obtain k1 where
    1: "stepping_inv k1 (do_sp_action a s)"
    and 2: "2 * k + stores_at (cpc s) \<le> 2 * k1 + stores_at (cpc (do_sp_action a s))"
    by blast
  from Cons.IH [OF 1] obtain k2 where
    "stepping_inv k2 (sp_run sch (do_sp_action a s))"
    "2 * k1 + stores_at (cpc (do_sp_action a s)) \<le> 2 * k2 + stores_at (cpc (sp_run sch (do_sp_action a s)))"
    by blast
  then show ?case using 2 by (intro exI [of _ k2]) simp
qed

lemma init_stepping: "stepping_inv 0 (sp_init cfg n ths)"
  by (simp add: stepping_inv_def sp_init_def counter_events_def stores_def spec_trace_def)

lemma phase_less: "phase p < 6"
  by (cases p) simp_all

lemma length_spec_trace: "length (spec_trace k) = 6 * k"
  by (induction k) (simp_all add: spec_trace_Suc cycle_trace_def, simp add: spec_trace_def)

lemma stepping_inv_cycles:
  assumes "stepping_inv k s"
  shows "length (counter_events (trace s)) div 6 = k"
proof -
  have "length (counter_events (trace s)) = 6 * k + phase (cpc s)"
    using assms phase_less [of "cpc s"]
    by (simp add: stepping_inv_def length_spec_trace cycle_trace_def)
  then show ?thesis
    using phase_less [of "cpc s"] by simp
qed

lemmas sp_eval = sp_init_def local_polls_def java_thread_def cstep_def wstep_def upd_jt_def emit_def fatal_def
  begin_setup_def wait_barrier_arm_def wait_barrier_disarm_def store_safepoint_counter_def set_sp_state_def
  arm_local_polls_def arm_polling_page_def synchronize_first_def synchronize_turn_def check_timeout_def
  turn_pass_def thread_not_running_def
  examine_state_of_thread_def try_stable_load_state_def safepoint_safe_with_def check_for_lazy_critical_native_def
  account_safe_thread_def back_off_def back_off_sleep_def print_safepoint_timeout_def disarm_polling_page_def
  restart_threads_def should_block_def block_state_ok_def NANOUNITS_def MICROUNITS_def MILLIUNITS_def
  NANOSECS_PER_MILLISEC_def Let_def

lemma replicate_numeral: "replicate (numeral k) x = x # replicate (pred_numeral k) x"
  by (simp add: numeral_eq_Suc)

lemma sp_run_append: "sp_run (xs @ ys) s = sp_run ys (sp_run xs s)"
  by (induction xs arbitrary: s) auto

text \<open>
  C1, as the code has it.  In every state that a schedule of VM thread and Java thread steps
  reaches from the initial state: if the global state is \<open>synchronized\<close> or
  \<open>synchronizing\<close> then the counter is odd.  The converse holds except at two program
  points of the VM thread, where the counter is odd and the state is \<open>not_synchronized\<close>:
  in \<open>arm_safepoint\<close> between the store to the counter and \<open>_state = _synchronizing\<close>,
  and in \<open>disarm_safepoint\<close> between \<open>_state = _not_synchronized\<close> and the store to
  the counter.
\<close>

theorem safepoint_parity:
  "((sp_state (sp_run sch (sp_init cfg n ths)) = synchronized
      \<or> sp_state (sp_run sch (sp_init cfg n ths)) = synchronizing)
     \<longrightarrow> odd (safepoint_counter (sp_run sch (sp_init cfg n ths))))
   \<and> (cpc (sp_run sch (sp_init cfg n ths)) \<noteq> C_arm_state
        \<and> cpc (sp_run sch (sp_init cfg n ths)) \<noteq> C_disarm_counter
     \<longrightarrow> (odd (safepoint_counter (sp_run sch (sp_init cfg n ths)))
          \<longleftrightarrow> (sp_state (sp_run sch (sp_init cfg n ths)) = synchronized
               \<or> sp_state (sp_run sch (sp_init cfg n ths)) = synchronizing)))
   \<and> (cpc (sp_run sch (sp_init cfg n ths)) = C_arm_state
        \<or> cpc (sp_run sch (sp_init cfg n ths)) = C_disarm_counter
     \<longrightarrow> odd (safepoint_counter (sp_run sch (sp_init cfg n ths)))
         \<and> sp_state (sp_run sch (sp_init cfg n ths)) = not_synchronized)"
proof -
  let ?s = "sp_run sch (sp_init cfg n ths)"
  have "parity_inv ?s"
    by (rule run_parity [OF init_parity])
  then have st: "sp_state ?s = expected_state (cpc ?s)"
    and od: "odd (safepoint_counter ?s) = expected_odd (cpc ?s)"
    by (simp_all add: parity_inv_def)
  show ?thesis
    unfolding st od by (cases "cpc ?s") simp_all
qed

theorem safepoint_parity_witness:
  "sp_state (sp_run (replicate 7 Coord) (sp_init local_polls 1 (\<lambda>t. java_thread))) = synchronizing
   \<and> odd (safepoint_counter (sp_run (replicate 7 Coord) (sp_init local_polls 1 (\<lambda>t. java_thread))))"
proof -
  let ?s = "sp_run (replicate 7 Coord) (sp_init local_polls 1 (\<lambda>t. java_thread))"
  have h: "sp_state ?s = synchronizing"
    by (simp add: sp_eval replicate_numeral)
  with safepoint_parity [of "replicate 7 Coord" local_polls 1 "\<lambda>t. java_thread"]
  show ?thesis by blast
qed

text \<open>
  The equivalence the spec states fails after three steps of the VM thread (\<open>begin\<close> up
  to and including the store to the counter in \<open>arm_safepoint\<close>): the counter is 1 and the
  state is still \<open>not_synchronized\<close>.  It fails again after twelve steps, with no Java
  threads to wait for, when \<open>disarm_safepoint\<close> has reset the state and not yet stored
  the counter.
\<close>

theorem safepoint_parity_counterexample:
  "odd (safepoint_counter (sp_run [Coord, Coord, Coord] (sp_init local_polls 1 (\<lambda>t. java_thread))))
   \<and> sp_state (sp_run [Coord, Coord, Coord] (sp_init local_polls 1 (\<lambda>t. java_thread)))
       = not_synchronized
   \<and> odd (safepoint_counter (sp_run (replicate 12 Coord) (sp_init local_polls 0 (\<lambda>t. java_thread))))
   \<and> sp_state (sp_run (replicate 12 Coord) (sp_init local_polls 0 (\<lambda>t. java_thread)))
       = not_synchronized"
  by (simp add: sp_eval replicate_numeral)

lemma arm_safepoint_store:
  "safepoint_counter (arm_safepoint s) = safepoint_counter s + 1"
  "stores (trace (arm_safepoint s)) = stores (trace s) + 1"
  by (simp_all add: arm_safepoint_def wait_barrier_arm_def store_safepoint_counter_def
      set_sp_state_def arm_local_polls_def arm_polling_page_def emit_def fatal_def stores_def Let_def)

lemma disarm_safepoint_store:
  assumes "\<not> fatal_error s" and "uses_global_page_poll (config s) \<longrightarrow> PageArmed s"
  shows "safepoint_counter (disarm_safepoint s) = safepoint_counter s + 1"
    and "stores (trace (disarm_safepoint s)) = stores (trace s) + 1"
  using assms
  by (simp_all add: disarm_safepoint_def wait_barrier_disarm_def store_safepoint_counter_def
      set_sp_state_def restart_threads_def disarm_polling_page_def emit_def fatal_def stores_def Let_def)

lemma disarm_safepoint_guard:
  assumes "uses_global_page_poll (config s)" and "\<not> PageArmed s"
  shows "fatal_error (disarm_safepoint s)" and "trace (disarm_safepoint s) = trace s"
    and "safepoint_counter (disarm_safepoint s) = safepoint_counter s"
    and "sp_state (disarm_safepoint s) = sp_state s"
  using assms by (simp_all add: disarm_safepoint_def disarm_polling_page_def fatal_def Let_def)

lemma sync_pass_page:
  assumes "sync_pass ts x = (l, s2)"
  shows "PageArmed s2 = PageArmed x"
  using sync_pass_view [of ts x] assms by (simp add: coordinator_view_def)

lemma synchronize_first_page:
  "PageArmed (synchronize_first s) = PageArmed s" "config (synchronize_first s) = config s"
  by (auto simp: synchronize_first_def Let_def split: prod.splits
      dest: sync_pass_proj sync_pass_page)

lemma synchronize_turn_page:
  "PageArmed (synchronize_turn s) = PageArmed s" "config (synchronize_turn s) = config s"
  by (auto simp: synchronize_turn_def check_timeout_def print_safepoint_timeout_def turn_pass_def
      back_off_def emit_def fatal_def Let_def split: prod.splits
      dest: sync_pass_proj sync_pass_page)

lemma cstep_page: "page_inv s \<Longrightarrow> page_inv (cstep s)"
proof (cases "fatal_error s")
  case True
  then show "page_inv s \<Longrightarrow> page_inv (cstep s)" by (simp add: cstep_def)
next
  case False
  assume inv: "page_inv s"
  show "page_inv (cstep s)"
  proof (cases "cpc s")
    case C_sync_first
    then show ?thesis
      using inv False synchronize_first_parity(3) [of s]
      by (auto simp: cstep_def page_inv_def synchronize_first_page)
  next
    case C_sync_loop
    then show ?thesis
      using inv False synchronize_turn_parity(3) [of s]
      by (auto simp: cstep_def page_inv_def synchronize_turn_page)
  qed (use inv False in \<open>auto simp: cstep_def page_inv_def begin_setup_def wait_barrier_arm_def
      store_safepoint_counter_def set_sp_state_def arm_local_polls_def arm_polling_page_def
      disarm_polling_page_def restart_threads_def wait_barrier_disarm_def emit_def fatal_def
      Let_def\<close>)
qed

lemma wstep_page:
  "PageArmed (wstep t s) = PageArmed s" "config (wstep t s) = config s"
  by (cases "wpc (jthreads s t)"; simp add: wstep_def upd_jt_def emit_def fatal_def Let_def)+

lemma action_page: "page_inv s \<Longrightarrow> page_inv (do_sp_action a s)"
  by (cases a)
     (simp_all add: cstep_page, simp_all add: page_inv_def wstep_page wstep_coord upd_jt_def emit_def)

lemma run_page: "page_inv s \<Longrightarrow> page_inv (sp_run sch s)"
  by (induction sch arbitrary: s) (simp_all add: action_page)

lemma cstep_config: "config (cstep s) = config s"
proof (cases "fatal_error s")
  case True
  then show ?thesis by (simp add: cstep_def)
next
  case False
  then show ?thesis
    by (cases "cpc s")
       (simp_all add: cstep_def synchronize_first_page synchronize_turn_page begin_setup_def
        wait_barrier_arm_def store_safepoint_counter_def set_sp_state_def arm_local_polls_def
        arm_polling_page_def disarm_polling_page_def restart_threads_def wait_barrier_disarm_def
        emit_def fatal_def Let_def)
qed

lemma run_config: "config (sp_run sch s) = config s"
proof (induction sch arbitrary: s)
  case Nil
  show ?case by simp
next
  case (Cons a sch)
  have "config (do_sp_action a s) = config s"
    by (cases a) (simp_all add: cstep_config wstep_page upd_jt_def emit_def)
  then show ?case
    using Cons.IH by simp
qed

lemma init_page: "page_inv (sp_init cfg n ths)"
  by (simp add: page_inv_def sp_init_def)

text \<open>A whole cycle from an idle VM thread adds two to the counter and leaves it idle.\<close>

lemma idle_cycle:
  assumes "cpc s = C_idle" and "\<not> fatal_error s" and "config s = local_polls"
    and "number_of_threads s = 0"
  shows "cpc (sp_run one_cycle s) = C_idle \<and> \<not> fatal_error (sp_run one_cycle s)
       \<and> config (sp_run one_cycle s) = local_polls \<and> number_of_threads (sp_run one_cycle s) = 0
       \<and> safepoint_counter (sp_run one_cycle s) = safepoint_counter s + 2"
  using assms
  by (simp add: one_cycle_def replicate_numeral cstep_def emit_def fatal_def
      begin_setup_def wait_barrier_arm_def wait_barrier_disarm_def store_safepoint_counter_def
      set_sp_state_def arm_local_polls_def arm_polling_page_def synchronize_first_def
      disarm_polling_page_def restart_threads_def local_polls_def Let_def)

lemma idle_cycles:
  "cpc (sp_run (concat (replicate m one_cycle)) idle_vm) = C_idle
   \<and> \<not> fatal_error (sp_run (concat (replicate m one_cycle)) idle_vm)
   \<and> config (sp_run (concat (replicate m one_cycle)) idle_vm) = local_polls
   \<and> number_of_threads (sp_run (concat (replicate m one_cycle)) idle_vm) = 0
   \<and> safepoint_counter (sp_run (concat (replicate m one_cycle)) idle_vm) = of_nat (2 * m)"
proof (induction m)
  case 0
  show ?case by (simp add: idle_vm_def sp_init_def)
next
  case (Suc m)
  have "replicate (Suc m) one_cycle = replicate m one_cycle @ [one_cycle]"
    by (simp add: replicate_append_same)
  then have r: "concat (replicate (Suc m) one_cycle) = concat (replicate m one_cycle) @ one_cycle"
    by (simp del: replicate.simps)
  from Suc idle_cycle [of "sp_run (concat (replicate m one_cycle)) idle_vm"]
  show ?case
    unfolding r sp_run_append by simp
qed

text \<open>
  C8, as the code has it.  \<open>arm_safepoint\<close>, which \<open>begin\<close> calls, stores the
  counter once, \<open>G + 1\<close>; so does \<open>disarm_safepoint\<close>, which is \<open>end\<close>, when its
  \<open>guarantee\<close> on \<open>PageArmed\<close> holds, and when it does not the VM stops before any store.
  In every run from the initial state:
  \<^item> the \<open>guarantee\<close> holds when the VM thread reaches \<open>disarm_safepoint\<close>;
  \<^item> the calls, the returns and the stores come in the order the spec gives, cycle after
    cycle: in cycle \<open>k\<close> \<open>begin\<close> stores \<open>2 * k + 1\<close> and \<open>end\<close> stores
    \<open>2 * k + 2\<close>, one store between each call and its return;
  \<^item> the counter is the number of stores made so far modulo \<open>2 ^ 64\<close>, and that number
    never goes down;
  \<^item> so the counter does not decrease as long as fewer than \<open>2 ^ 64\<close> stores have been
    made.
\<close>

theorem generation_counter_stepping:
  "safepoint_counter (arm_safepoint s) = safepoint_counter s + 1
   \<and> stores (trace (arm_safepoint s)) = stores (trace s) + 1
   \<and> (\<not> fatal_error s \<and> (uses_global_page_poll (config s) \<longrightarrow> PageArmed s) \<longrightarrow>
        safepoint_counter (disarm_safepoint s) = safepoint_counter s + 1
        \<and> stores (trace (disarm_safepoint s)) = stores (trace s) + 1)
   \<and> (uses_global_page_poll (config s) \<and> \<not> PageArmed s \<longrightarrow>
        fatal_error (disarm_safepoint s) \<and> trace (disarm_safepoint s) = trace s
        \<and> safepoint_counter (disarm_safepoint s) = safepoint_counter s)
   \<and> (cpc (sp_run sch (sp_init cfg n ths)) = C_disarm_page \<and> uses_global_page_poll cfg \<longrightarrow>
        PageArmed (sp_run sch (sp_init cfg n ths)))
   \<and> counter_events (trace (sp_run sch (sp_init cfg n ths)))
       = spec_trace (length (counter_events (trace (sp_run sch (sp_init cfg n ths)))) div 6)
         @ take (phase (cpc (sp_run sch (sp_init cfg n ths))))
             (cycle_trace (length (counter_events (trace (sp_run sch (sp_init cfg n ths)))) div 6))
   \<and> safepoint_counter (sp_run sch (sp_init cfg n ths))
       = of_nat (2 * (length (counter_events (trace (sp_run sch (sp_init cfg n ths)))) div 6)
                 + stores_at (cpc (sp_run sch (sp_init cfg n ths))))
   \<and> stores (trace (sp_run sch (sp_init cfg n ths)))
       = 2 * (length (counter_events (trace (sp_run sch (sp_init cfg n ths)))) div 6)
         + stores_at (cpc (sp_run sch (sp_init cfg n ths)))
   \<and> stores (trace (sp_run sch (sp_init cfg n ths)))
       \<le> stores (trace (sp_run (sch @ sch') (sp_init cfg n ths)))
   \<and> (stores (trace (sp_run (sch @ sch') (sp_init cfg n ths))) < 2 ^ 64
       \<longrightarrow> unat (safepoint_counter (sp_run sch (sp_init cfg n ths)))
            \<le> unat (safepoint_counter (sp_run (sch @ sch') (sp_init cfg n ths))))"
proof -
  let ?R = "sp_run sch (sp_init cfg n ths)" and ?R' = "sp_run (sch @ sch') (sp_init cfg n ths)"
  from run_stepping [OF init_stepping, where sch = sch]
  obtain k where k: "stepping_inv k ?R" by blast
  from run_stepping [OF k, where sch = sch'] obtain k' where k': "stepping_inv k' ?R'"
    and le: "2 * k + stores_at (cpc ?R) \<le> 2 * k' + stores_at (cpc ?R')"
    by (auto simp: sp_run_append)
  note c = stepping_inv_cycles [OF k]
  have g: "safepoint_counter ?R = of_nat (stores (trace ?R))"
    and g': "safepoint_counter ?R' = of_nat (stores (trace ?R'))"
    using k k' by (simp_all add: stepping_inv_def)
  have st: "stores (trace ?R) = 2 * k + stores_at (cpc ?R)"
    and st': "stores (trace ?R') = 2 * k' + stores_at (cpc ?R')"
    using k k' by (simp_all add: stepping_inv_def)
  have mono: "stores (trace ?R) \<le> stores (trace ?R')"
    using le by (simp add: st st')
  have "unat (safepoint_counter ?R) \<le> unat (safepoint_counter ?R')"
    if "stores (trace ?R') < 2 ^ 64"
  proof -
    have "unat (of_nat (stores (trace ?R')) :: 64 word) = stores (trace ?R')"
      using that by (simp add: unat_of_nat)
    moreover have "unat (of_nat (stores (trace ?R)) :: 64 word) = stores (trace ?R)"
      using that mono by (simp add: unat_of_nat)
    ultimately show ?thesis using mono by (simp add: g g')
  qed
  then have imp: "stores (trace ?R') < 2 ^ 64
      \<longrightarrow> unat (safepoint_counter ?R) \<le> unat (safepoint_counter ?R')"
    by blast
  have A: "counter_events (trace ?R) = spec_trace k @ take (phase (cpc ?R)) (cycle_trace k)"
    and B: "safepoint_counter ?R = of_nat (2 * k + stores_at (cpc ?R))"
    using k by (simp_all add: stepping_inv_def)
  have D: "\<not> fatal_error s \<and> (uses_global_page_poll (config s) \<longrightarrow> PageArmed s) \<longrightarrow>
        safepoint_counter (disarm_safepoint s) = safepoint_counter s + 1
        \<and> stores (trace (disarm_safepoint s)) = stores (trace s) + 1"
    using disarm_safepoint_store [of s] by blast
  have G: "uses_global_page_poll (config s) \<and> \<not> PageArmed s \<longrightarrow>
        fatal_error (disarm_safepoint s) \<and> trace (disarm_safepoint s) = trace s
        \<and> safepoint_counter (disarm_safepoint s) = safepoint_counter s"
    using disarm_safepoint_guard [of s] by blast
  have "page_inv ?R"
    by (rule run_page) (rule init_page)
  moreover have "config ?R = cfg"
    by (simp add: run_config sp_init_def)
  ultimately have P: "cpc ?R = C_disarm_page \<and> uses_global_page_poll cfg \<longrightarrow> PageArmed ?R"
    by (simp add: page_inv_def)
  show ?thesis
    unfolding c
    by (intro conjI) (fact arm_safepoint_store D G P A B st mono imp)+
qed

lemma before_disarm_state:
  "cpc before_disarm = C_disarm_page" "\<not> fatal_error before_disarm"
  "safepoint_counter before_disarm = 1" "config before_disarm = page_polls"
  "uses_global_page_poll page_polls"
  by (simp_all add: before_disarm_def page_polls_def sp_eval replicate_numeral)

lemma after_disarm_state:
  "stores (trace after_disarm) < 2 ^ 64" "safepoint_counter after_disarm = 2"
  "cpc after_disarm = C_idle"
  by (simp_all add: after_disarm_def page_polls_def sp_eval replicate_numeral stores_def)

lemma unarmed_state:
  "uses_global_page_poll (config (sp_init page_polls 0 (\<lambda>t. java_thread)))"
  "\<not> PageArmed (sp_init page_polls 0 (\<lambda>t. java_thread))"
  "safepoint_counter (sp_init page_polls 0 (\<lambda>t. java_thread)) = 0"
  by (simp_all add: sp_init_def page_polls_def)

text \<open>
  The theorem at a VM that polls with the global page: before and after
  \<open>disarm_safepoint\<close> in its first cycle, and at \<open>disarm_safepoint\<close> called when the
  page is not armed.
\<close>

theorem generation_counter_stepping_witness:
  "cpc before_disarm = C_disarm_page \<and> \<not> fatal_error before_disarm
   \<and> uses_global_page_poll (config before_disarm) \<and> PageArmed before_disarm
   \<and> safepoint_counter before_disarm = 1
   \<and> safepoint_counter (disarm_safepoint before_disarm) = 2
   \<and> uses_global_page_poll (config (sp_init page_polls 0 (\<lambda>t. java_thread)))
   \<and> \<not> PageArmed (sp_init page_polls 0 (\<lambda>t. java_thread))
   \<and> fatal_error (disarm_safepoint (sp_init page_polls 0 (\<lambda>t. java_thread)))
   \<and> safepoint_counter (disarm_safepoint (sp_init page_polls 0 (\<lambda>t. java_thread))) = 0
   \<and> stores (trace after_disarm) < 2 ^ 64
   \<and> unat (safepoint_counter before_disarm) \<le> unat (safepoint_counter after_disarm)
   \<and> safepoint_counter after_disarm = 2"
proof -
  note b = before_disarm_state and a = after_disarm_state and u = unarmed_state
  note t1 = generation_counter_stepping [where s = before_disarm and sch = "replicate 10 Coord"
      and cfg = page_polls and n = 0 and ths = "\<lambda>t. java_thread" and sch' = "replicate 6 Coord",
      folded before_disarm_def after_disarm_def]
  note t2 = generation_counter_stepping [where s = "sp_init page_polls 0 (\<lambda>t. java_thread)"
      and sch = "[]" and cfg = page_polls and n = 0 and ths = "\<lambda>t. java_thread" and sch' = "[]"]
  have p: "PageArmed before_disarm"
    using t1 b by blast
  have d: "safepoint_counter (disarm_safepoint before_disarm) = 2"
    using t1 b p by simp
  have m: "unat (safepoint_counter before_disarm) \<le> unat (safepoint_counter after_disarm)"
    using t1 a(1) by blast
  have g: "fatal_error (disarm_safepoint (sp_init page_polls 0 (\<lambda>t. java_thread)))"
    "safepoint_counter (disarm_safepoint (sp_init page_polls 0 (\<lambda>t. java_thread))) = 0"
    using t2 u by simp_all
  show ?thesis
    using b a u p d m g by simp
qed

text \<open>
  Against C8 as the spec has it ("so \<open>G\<close> is monotonically non-decreasing"): the counter is
  a \<open>uint64_t\<close>.  After \<open>2 ^ 63 - 1\<close> cycles it is \<open>2 ^ 64 - 2\<close>, and the cycle after
  that takes it to 0.
\<close>

theorem generation_counter_wraps_counterexample:
  "unat (safepoint_counter (sp_run (concat (replicate cycles_to_wrap one_cycle)) idle_vm))
     = 18446744073709551614
   \<and> unat (safepoint_counter
        (sp_run (concat (replicate cycles_to_wrap one_cycle) @ one_cycle) idle_vm)) = 0
   \<and> unat (safepoint_counter
        (sp_run (concat (replicate cycles_to_wrap one_cycle) @ one_cycle) idle_vm))
     < unat (safepoint_counter (sp_run (concat (replicate cycles_to_wrap one_cycle)) idle_vm))"
proof -
  let ?s = "sp_run (concat (replicate cycles_to_wrap one_cycle)) idle_vm"
  note c = idle_cycles [of cycles_to_wrap]
  have w: "(of_nat (2 * cycles_to_wrap) :: 64 word) = - 2"
    by (simp add: cycles_to_wrap_def)
  have 1: "safepoint_counter ?s = - 2"
    using c w by simp
  have "safepoint_counter (sp_run one_cycle ?s) = safepoint_counter ?s + 2"
    using idle_cycle [of ?s] c by simp
  then have 2: "safepoint_counter (sp_run (concat (replicate cycles_to_wrap one_cycle) @ one_cycle) idle_vm) = 0"
    unfolding sp_run_append 1 by simp
  have 3: "unat (- 2 :: 64 word) = 18446744073709551614"
    by simp
  show ?thesis
    unfolding 1 2 3 by simp
qed


subsection \<open>The steps of the VM thread and the functions they come from\<close>

lemma micro_cpc:
  "wait_barrier_arm tag (s\<lparr>cpc := p\<rparr>) = (wait_barrier_arm tag s)\<lparr>cpc := p\<rparr>"
  "store_safepoint_counter (s\<lparr>cpc := p\<rparr>) = (store_safepoint_counter s)\<lparr>cpc := p\<rparr>"
  "set_sp_state st (s\<lparr>cpc := p\<rparr>) = (set_sp_state st s)\<lparr>cpc := p\<rparr>"
  "arm_local_polls (s\<lparr>cpc := p\<rparr>) = (arm_local_polls s)\<lparr>cpc := p\<rparr>"
  "arm_polling_page (s\<lparr>cpc := p\<rparr>) = (arm_polling_page s)\<lparr>cpc := p\<rparr>"
  "disarm_polling_page (s\<lparr>cpc := p\<rparr>) = (disarm_polling_page s)\<lparr>cpc := p\<rparr>"
  "restart_threads (s\<lparr>cpc := p\<rparr>) = (restart_threads s)\<lparr>cpc := p\<rparr>"
  "wait_barrier_disarm (s\<lparr>cpc := p\<rparr>) = (wait_barrier_disarm s)\<lparr>cpc := p\<rparr>"
  by (intro spsys.equality;
      simp add: wait_barrier_arm_def store_safepoint_counter_def set_sp_state_def
        arm_local_polls_def arm_polling_page_def disarm_polling_page_def restart_threads_def
        wait_barrier_disarm_def emit_def fatal_def cong: if_cong)+

lemma micro_fatal:
  "fatal_error (wait_barrier_arm tag s) = fatal_error s"
  "fatal_error (store_safepoint_counter s) = fatal_error s"
  "fatal_error (set_sp_state st s) = fatal_error s"
  "fatal_error (arm_local_polls s) = fatal_error s"
  "fatal_error (restart_threads s) = fatal_error s"
  "fatal_error (wait_barrier_disarm s) = fatal_error s"
  by (simp_all add: wait_barrier_arm_def store_safepoint_counter_def set_sp_state_def
      arm_local_polls_def restart_threads_def wait_barrier_disarm_def emit_def)

lemma cstep_at:
  assumes "\<not> fatal_error s"
  shows "cpc s = C_arm_barrier \<Longrightarrow>
           cstep s = (wait_barrier_arm (ucast (safepoint_counter s + 1)) s)\<lparr>cpc := C_arm_counter\<rparr>"
    and "cpc s = C_arm_counter \<Longrightarrow> cstep s = (store_safepoint_counter s)\<lparr>cpc := C_arm_state\<rparr>"
    and "cpc s = C_arm_state \<Longrightarrow> cstep s = (set_sp_state synchronizing s)\<lparr>cpc := C_arm_polls\<rparr>"
    and "cpc s = C_arm_polls \<Longrightarrow> cstep s = (arm_local_polls s)\<lparr>cpc := C_arm_page\<rparr>"
    and "cpc s = C_arm_page \<Longrightarrow> cstep s = (arm_polling_page s)\<lparr>cpc := C_sync_first\<rparr>"
    and "cpc s = C_disarm_page \<Longrightarrow> cstep s = (disarm_polling_page s)\<lparr>cpc := C_disarm_state\<rparr>"
    and "cpc s = C_disarm_state \<Longrightarrow>
           cstep s = (set_sp_state not_synchronized s)\<lparr>cpc := C_disarm_counter\<rparr>"
    and "cpc s = C_disarm_counter \<Longrightarrow>
           cstep s = (store_safepoint_counter s)\<lparr>cpc := C_disarm_threads\<rparr>"
    and "cpc s = C_disarm_threads \<Longrightarrow> cstep s = (restart_threads s)\<lparr>cpc := C_disarm_unlock\<rparr>"
    and "cpc s = C_disarm_unlock \<Longrightarrow>
           cstep s = s\<lparr>Threads_lock_owned := False, cpc := C_disarm_barrier\<rparr>"
    and "cpc s = C_disarm_barrier \<Longrightarrow>
           cstep s = (emit Ev_end_return (wait_barrier_disarm s))\<lparr>cpc := C_idle\<rparr>"
  using assms by (simp_all add: cstep_def)

text \<open>The five steps of the VM thread from \<open>C_arm_barrier\<close> are \<open>arm_safepoint\<close>.\<close>

lemma cstep_arm_safepoint:
  assumes "\<not> fatal_error s" and "cpc s = C_arm_barrier"
  shows "cstep (cstep (cstep (cstep (cstep s)))) = (arm_safepoint s)\<lparr>cpc := C_sync_first\<rparr>"
proof -
  let ?s1 = "wait_barrier_arm (ucast (safepoint_counter s + 1)) s"
  let ?s2 = "store_safepoint_counter ?s1"
  let ?s3 = "set_sp_state synchronizing ?s2"
  let ?s4 = "arm_local_polls ?s3"
  have 1: "cstep s = ?s1\<lparr>cpc := C_arm_counter\<rparr>"
    using assms by (simp add: cstep_at)
  have 2: "cstep (?s1\<lparr>cpc := C_arm_counter\<rparr>) = ?s2\<lparr>cpc := C_arm_state\<rparr>"
    using assms(1) by (subst cstep_at(2)) (simp_all add: micro_cpc micro_fatal)
  have 3: "cstep (?s2\<lparr>cpc := C_arm_state\<rparr>) = ?s3\<lparr>cpc := C_arm_polls\<rparr>"
    using assms(1) by (subst cstep_at(3)) (simp_all add: micro_cpc micro_fatal)
  have 4: "cstep (?s3\<lparr>cpc := C_arm_polls\<rparr>) = ?s4\<lparr>cpc := C_arm_page\<rparr>"
    using assms(1) by (subst cstep_at(4)) (simp_all add: micro_cpc micro_fatal)
  have 5: "cstep (?s4\<lparr>cpc := C_arm_page\<rparr>) = (arm_polling_page ?s4)\<lparr>cpc := C_sync_first\<rparr>"
    using assms(1) by (subst cstep_at(5)) (simp_all add: micro_cpc micro_fatal)
  show ?thesis
    by (simp only: 1 2 3 4 5 arm_safepoint_def Let_def)
qed

text \<open>
  The six steps of the VM thread from \<open>C_disarm_page\<close> are \<open>disarm_safepoint\<close>, unless
  the polling page turns out not to be armed, which is fatal.
\<close>

lemma cstep_disarm_safepoint:
  assumes "\<not> fatal_error s" and "cpc s = C_disarm_page"
    and "\<not> fatal_error (disarm_polling_page s)"
  shows "cstep (cstep (cstep (cstep (cstep (cstep s)))))
     = (emit Ev_end_return (disarm_safepoint s))\<lparr>cpc := C_idle\<rparr>"
proof -
  let ?s1 = "disarm_polling_page s"
  let ?s2 = "set_sp_state not_synchronized ?s1"
  let ?s3 = "store_safepoint_counter ?s2"
  let ?s4 = "restart_threads ?s3"
  let ?s5 = "?s4\<lparr>Threads_lock_owned := False\<rparr>"
  have 1: "cstep s = ?s1\<lparr>cpc := C_disarm_state\<rparr>"
    using assms by (simp add: cstep_at)
  have 2: "cstep (?s1\<lparr>cpc := C_disarm_state\<rparr>) = ?s2\<lparr>cpc := C_disarm_counter\<rparr>"
    using assms(3) by (subst cstep_at(7)) (simp_all add: micro_cpc micro_fatal)
  have 3: "cstep (?s2\<lparr>cpc := C_disarm_counter\<rparr>) = ?s3\<lparr>cpc := C_disarm_threads\<rparr>"
    using assms(3) by (subst cstep_at(8)) (simp_all add: micro_cpc micro_fatal)
  have 4: "cstep (?s3\<lparr>cpc := C_disarm_threads\<rparr>) = ?s4\<lparr>cpc := C_disarm_unlock\<rparr>"
    using assms(3) by (subst cstep_at(9)) (simp_all add: micro_cpc micro_fatal)
  have 5: "cstep (?s4\<lparr>cpc := C_disarm_unlock\<rparr>) = ?s5\<lparr>cpc := C_disarm_barrier\<rparr>"
    using assms(3) by (subst cstep_at(10)) (simp_all add: micro_cpc micro_fatal)
  have 6: "cstep (?s5\<lparr>cpc := C_disarm_barrier\<rparr>)
      = (emit Ev_end_return (wait_barrier_disarm ?s5))\<lparr>cpc := C_idle\<rparr>"
    using assms(3)
    by (subst cstep_at(11)) (simp_all add: micro_cpc micro_fatal wait_barrier_disarm_def emit_def)
  show ?thesis
    by (simp only: 1 2 3 4 5 6 disarm_safepoint_def Let_def assms(3) if_False)
qed

subsection \<open>A thread in \<open>block\<close>\<close>

lemma wstep_B_entry:
  assumes "\<not> fatal_error s" and "wpc (jthreads s t) = B_entry"
  shows "wstep t s =
     (if is_terminated (jthreads s t)
      then (if vm_exited s then upd_jt t (\<lambda>x. x\<lparr>wpc := W_parked_forever\<rparr>) s
            else upd_jt t (\<lambda>x. x\<lparr>wpc := blk_return (jthreads s t)\<rparr>) s)
      else upd_jt t (\<lambda>x. x\<lparr>wpc := B_load\<rparr>) s)"
  using assms by (simp add: wstep_def Let_def)

lemma wstep_parked: "wpc (jthreads s t) = W_parked_forever \<Longrightarrow> wstep t s = s"
  by (simp add: wstep_def Let_def)

lemma account_safe_thread_wpc: "wpc (jthreads (account_safe_thread t s) u) = wpc (jthreads s u)"
  by (simp add: account_safe_thread_def upd_jt_def Let_def)

lemma examine_wpc: "wpc (jthreads (examine_state_of_thread t c s) u) = wpc (jthreads s u)"
  by (simp add: examine_state_of_thread_def account_safe_thread_wpc upd_jt_def Let_def
      check_for_lazy_critical_native_def split: option.splits)

lemma thread_not_running_wpc:
  "wpc (jthreads (snd (thread_not_running t s)) u) = wpc (jthreads s u)"
  by (simp add: thread_not_running_def examine_wpc Let_def)

lemma sync_pass_wpc: "wpc (jthreads (snd (sync_pass ts s)) u) = wpc (jthreads s u)"
proof (induction ts arbitrary: s)
  case Nil
  show ?case by simp
next
  case (Cons t ts)
  obtain b s1 where tn: "thread_not_running t s = (b, s1)"
    by (cases "thread_not_running t s")
  have w1: "wpc (jthreads s1 u) = wpc (jthreads s u)"
    using thread_not_running_wpc [of t s u] by (simp add: tn)
  show ?case
  proof (cases b)
    case True
    then show ?thesis
      using Cons.IH [of "s1\<lparr>still_running := still_running s1 - 1\<rparr>"] w1 by (simp add: tn)
  next
    case False
    then show ?thesis
      using Cons.IH [of s1] w1 by (auto simp: tn split: prod.splits)
  qed
qed

lemma sync_pass_wpc': "sync_pass ts x = (l, s2) \<Longrightarrow> wpc (jthreads s2 u) = wpc (jthreads x u)"
  using sync_pass_wpc [of ts x u] by simp

lemma synchronize_first_wpc: "wpc (jthreads (synchronize_first s) u) = wpc (jthreads s u)"
  by (auto simp: synchronize_first_def Let_def split: prod.splits dest: sync_pass_wpc')

lemma synchronize_turn_wpc: "wpc (jthreads (synchronize_turn s) u) = wpc (jthreads s u)"
  by (auto simp: synchronize_turn_def check_timeout_def print_safepoint_timeout_def turn_pass_def
      back_off_def emit_def fatal_def Let_def split: prod.splits dest: sync_pass_wpc')

lemma cstep_wpc: "wpc (jthreads (cstep s) u) = wpc (jthreads s u)"
proof (cases "fatal_error s")
  case True
  then show ?thesis by (simp add: cstep_def)
next
  case False
  then show ?thesis
    by (cases "cpc s")
       (simp_all add: cstep_def synchronize_first_wpc synchronize_turn_wpc begin_setup_def
        wait_barrier_arm_def store_safepoint_counter_def set_sp_state_def arm_local_polls_def
        arm_polling_page_def disarm_polling_page_def restart_threads_def wait_barrier_disarm_def
        emit_def fatal_def Let_def)
qed

lemma wstep_other: "u \<noteq> t \<Longrightarrow> wpc (jthreads (wstep t s) u) = wpc (jthreads s u)"
  by (cases "wpc (jthreads s t)"; simp add: wstep_def upd_jt_def emit_def fatal_def Let_def)+

lemma parked_for_ever:
  assumes "wpc (jthreads s t) = W_parked_forever"
  shows "wpc (jthreads (sp_run sch s) t) = W_parked_forever"
  using assms
proof (induction sch arbitrary: s)
  case Nil
  then show ?case by simp
next
  case (Cons a sch)
  have "wpc (jthreads (do_sp_action a s) t) = W_parked_forever"
  proof (cases a)
    case Coord
    then show ?thesis using Cons.prems by (simp add: cstep_wpc)
  next
    case (Worker u)
    then show ?thesis
      using Cons.prems wstep_other [of t u s] by (cases "u = t") (simp_all add: wstep_parked)
  qed (use Cons.prems in \<open>auto simp: upd_jt_def emit_def\<close>)
  then show ?case using Cons.IH by simp
qed

text \<open>
  C10.  A thread that has terminated and enters \<open>block\<close> leaves it with its first step:
  nothing is recorded, its safepoint id and its thread state are as they were, and it is
  back where it came from.  Only when the VM has exited does it not come back: it is parked
  for ever, whatever runs afterwards.
\<close>

theorem block_terminated_thread:
  assumes "\<not> fatal_error s" and "wpc (jthreads s t) = B_entry" and "is_terminated (jthreads s t)"
  shows "wstep t s = upd_jt t (\<lambda>x. x\<lparr>wpc := (if vm_exited s then W_parked_forever
                                                else blk_return (jthreads s t))\<rparr>) s
       \<and> trace (wstep t s) = trace s
       \<and> safepoint_id (jthreads (wstep t s) t) = safepoint_id (jthreads s t)
       \<and> thread_state (jthreads (wstep t s) t) = thread_state (jthreads s t)
       \<and> (\<not> vm_exited s \<longrightarrow> wpc (jthreads (wstep t s) t) = blk_return (jthreads s t))
       \<and> (vm_exited s \<longrightarrow> (\<forall>sch. wpc (jthreads (sp_run sch (wstep t s)) t) = W_parked_forever))"
proof -
  have w: "wstep t s = upd_jt t (\<lambda>x. x\<lparr>wpc := (if vm_exited s then W_parked_forever
                                                else blk_return (jthreads s t))\<rparr>) s"
    using assms by (simp add: wstep_B_entry)
  have "wpc (jthreads (sp_run sch (wstep t s)) t) = W_parked_forever" if "vm_exited s" for sch
    by (rule parked_for_ever) (simp add: w that upd_jt_def)
  then show ?thesis
    using w by (simp add: upd_jt_def)
qed

text \<open>The theorem at a terminated thread of a VM that has not exited.\<close>

theorem block_terminated_thread_witness:
  "\<not> fatal_error terminated_in_block \<and> wpc (jthreads terminated_in_block 0) = B_entry
   \<and> is_terminated (jthreads terminated_in_block 0) \<and> \<not> vm_exited terminated_in_block
   \<and> wpc (jthreads (wstep 0 terminated_in_block) 0) = W_running
   \<and> trace (wstep 0 terminated_in_block) = []
   \<and> safepoint_id (jthreads (wstep 0 terminated_in_block) 0) = 0
   \<and> thread_state (jthreads (wstep 0 terminated_in_block) 0) = thread_in_Java"
proof -
  have h: "\<not> fatal_error terminated_in_block" "wpc (jthreads terminated_in_block 0) = B_entry"
    "is_terminated (jthreads terminated_in_block 0)"
    and e: "\<not> vm_exited terminated_in_block" "blk_return (jthreads terminated_in_block 0) = W_running"
    "trace terminated_in_block = []" "safepoint_id (jthreads terminated_in_block 0) = 0"
    "thread_state (jthreads terminated_in_block 0) = thread_in_Java"
    by (simp_all add: terminated_in_block_def sp_init_def java_thread_def)
  from block_terminated_thread [OF h] e h show ?thesis
    by (simp add: upd_jt_def)
qed

text \<open>The steps of \<open>block\<close> for a thread that is not terminated, up to the barrier.\<close>

lemma block_to_barrier:
  assumes "\<not> fatal_error s" and "wpc (jthreads s t) = B_entry"
    and "\<not> is_terminated (jthreads s t)" and "block_state_ok (thread_state (jthreads s t))"
  shows "(wstep t ^^ 5) s =
      emit (Ev_barrier_wait t (ucast (safepoint_counter s)))
       (emit (Ev_set_thread_state t thread_blocked)
         (emit (Ev_set_safepoint_id t (safepoint_counter s))
           (upd_jt t (\<lambda>x. x\<lparr>blk_state := thread_state (jthreads s t), walkable := True,
                blk_safepoint_id := safepoint_counter s, safepoint_id := safepoint_counter s,
                thread_state := thread_blocked,
                wpc := (if barrier_tag s = ucast (safepoint_counter s)
                        then B_parked else B_restore_state)\<rparr>) s)))"
proof -
  let ?g = "safepoint_counter s" and ?st = "thread_state (jthreads s t)"
  let ?s1 = "upd_jt t (\<lambda>x. x\<lparr>wpc := B_load\<rparr>) s"
  let ?s2 = "upd_jt t (\<lambda>x. x\<lparr>blk_state := ?st, walkable := True,
                blk_safepoint_id := ?g, wpc := B_set_id\<rparr>) s"
  let ?s3 = "emit (Ev_set_safepoint_id t ?g)
      (upd_jt t (\<lambda>x. x\<lparr>blk_state := ?st, walkable := True,
                blk_safepoint_id := ?g, safepoint_id := ?g, wpc := B_set_blocked\<rparr>) s)"
  let ?s4 = "emit (Ev_set_thread_state t thread_blocked) (emit (Ev_set_safepoint_id t ?g)
      (upd_jt t (\<lambda>x. x\<lparr>blk_state := ?st, walkable := True,
                blk_safepoint_id := ?g, safepoint_id := ?g, thread_state := thread_blocked,
                wpc := B_wait\<rparr>) s))"
  have 1: "wstep t s = ?s1"
    using assms by (simp add: wstep_def Let_def)
  have 2: "wstep t ?s1 = ?s2"
    using assms(1) by (simp add: wstep_def upd_jt_def Let_def)
  have 3: "wstep t ?s2 = ?s3"
    using assms(1,4) by (simp add: wstep_def upd_jt_def emit_def Let_def)
  have 4: "wstep t ?s3 = ?s4"
    using assms(1) by (simp add: wstep_def upd_jt_def emit_def Let_def)
  have 5: "wstep t ?s4 =
      emit (Ev_barrier_wait t (ucast ?g))
       (emit (Ev_set_thread_state t thread_blocked)
         (emit (Ev_set_safepoint_id t ?g)
           (upd_jt t (\<lambda>x. x\<lparr>blk_state := ?st, walkable := True,
                blk_safepoint_id := ?g, safepoint_id := ?g,
                thread_state := thread_blocked,
                wpc := (if barrier_tag s = ucast ?g then B_parked else B_restore_state)\<rparr>) s)))"
    using assms(1) by (simp add: wstep_def upd_jt_def emit_def Let_def)
  have "(wstep t ^^ 5) s = wstep t (wstep t (wstep t (wstep t (wstep t s))))"
    by (simp add: eval_nat_numeral)
  then show ?thesis
    by (simp only: 1 2 3 4 5)
qed

text \<open>\<dots> and from the barrier to the return, when the barrier lets the thread through.\<close>

lemma block_from_barrier:
  assumes "\<not> fatal_error s" and "wpc (jthreads s t) = B_restore_state"
    and "safepoint_id (jthreads s t) = blk_safepoint_id (jthreads s t)"
  shows "wpc (jthreads ((wstep t ^^ 3) s) t) = blk_return (jthreads s t)
       \<and> thread_state (jthreads ((wstep t ^^ 3) s) t) = blk_state (jthreads s t)
       \<and> safepoint_id (jthreads ((wstep t ^^ 3) s) t) = 0
       \<and> \<not> fatal_error ((wstep t ^^ 3) s)
       \<and> take (Suc (Suc (length (trace s)))) (trace ((wstep t ^^ 3) s))
           = trace s @ [Ev_set_thread_state t (blk_state (jthreads s t)), Ev_set_safepoint_id t 0]"
proof -
  let ?st = "blk_state (jthreads s t)"
  let ?s1 = "emit (Ev_set_thread_state t ?st)
      (upd_jt t (\<lambda>x. x\<lparr>thread_state := ?st, wpc := B_reset_id\<rparr>) s)"
  let ?s2 = "emit (Ev_set_safepoint_id t 0) (emit (Ev_set_thread_state t ?st)
      (upd_jt t (\<lambda>x. x\<lparr>thread_state := ?st, safepoint_id := 0, wpc := B_finish\<rparr>) s))"
  have 1: "wstep t s = ?s1"
    using assms(1,2) by (simp add: wstep_def Let_def)
  have 2: "wstep t ?s1 = ?s2"
    using assms(1) by (simp add: wstep_def upd_jt_def emit_def Let_def)
  have 3: "(wstep t ^^ 3) s = wstep t ?s2"
    by (simp add: eval_nat_numeral 1 2)
  have f: "\<not> fatal_error ?s2" "wpc (jthreads ?s2 t) = B_finish" "safepoint_id (jthreads ?s2 t) = 0"
    using assms(1) by (simp_all add: upd_jt_def emit_def)
  show ?thesis
    unfolding 3 using f
    by (simp add: wstep_def Let_def) (simp add: upd_jt_def emit_def)
qed

text \<open>
  C2, as the code has it.  \<open>block\<close> has no test of the parity of the counter.  A thread
  that is not terminated and enters \<open>block\<close> in one of the states of its switch reads the
  counter \<open>g\<close>, whatever its parity, records it as its safepoint id, becomes
  \<open>thread_blocked\<close> and calls \<open>wait(g)\<close> on the barrier.  The barrier parks it only when
  its tag is \<open>g\<close>; when the tag differs the wait returns at once, and three more steps
  restore the thread state, reset the safepoint id and bring the thread back.
\<close>

theorem block_records_any_generation:
  assumes "\<not> fatal_error s" and "wpc (jthreads s t) = B_entry"
    and "\<not> is_terminated (jthreads s t)" and "block_state_ok (thread_state (jthreads s t))"
  shows "trace ((wstep t ^^ 5) s)
           = trace s @ [Ev_set_safepoint_id t (safepoint_counter s),
                        Ev_set_thread_state t thread_blocked,
                        Ev_barrier_wait t (ucast (safepoint_counter s))]
       \<and> safepoint_id (jthreads ((wstep t ^^ 5) s) t) = safepoint_counter s
       \<and> thread_state (jthreads ((wstep t ^^ 5) s) t) = thread_blocked
       \<and> wpc (jthreads ((wstep t ^^ 5) s) t)
           = (if barrier_tag s = ucast (safepoint_counter s) then B_parked else B_restore_state)
       \<and> (barrier_tag s = ucast (safepoint_counter s)
            \<longrightarrow> (wstep t ^^ 6) s = (wstep t ^^ 5) s)
       \<and> (barrier_tag s \<noteq> ucast (safepoint_counter s)
            \<longrightarrow> wpc (jthreads ((wstep t ^^ 8) s) t) = blk_return (jthreads s t)
              \<and> thread_state (jthreads ((wstep t ^^ 8) s) t) = thread_state (jthreads s t)
              \<and> safepoint_id (jthreads ((wstep t ^^ 8) s) t) = 0
              \<and> \<not> fatal_error ((wstep t ^^ 8) s))"
proof -
  let ?s5 = "(wstep t ^^ 5) s"
  note b = block_to_barrier [OF assms]
  have t5: "trace ?s5 = trace s @ [Ev_set_safepoint_id t (safepoint_counter s),
                        Ev_set_thread_state t thread_blocked,
                        Ev_barrier_wait t (ucast (safepoint_counter s))]"
    and j5: "safepoint_id (jthreads ?s5 t) = safepoint_counter s"
      "thread_state (jthreads ?s5 t) = thread_blocked"
      "wpc (jthreads ?s5 t)
           = (if barrier_tag s = ucast (safepoint_counter s) then B_parked else B_restore_state)"
      "blk_safepoint_id (jthreads ?s5 t) = safepoint_counter s"
      "blk_state (jthreads ?s5 t) = thread_state (jthreads s t)"
      "blk_return (jthreads ?s5 t) = blk_return (jthreads s t)"
    and f5: "\<not> fatal_error ?s5" and bt: "barrier_tag ?s5 = barrier_tag s"
    unfolding b using assms(1) by (simp_all add: emit_def upd_jt_def)
  have parked: "(wstep t ^^ 6) s = ?s5" if "barrier_tag s = ucast (safepoint_counter s)"
  proof -
    have "(wstep t ^^ 6) s = wstep t ?s5"
      by (simp add: eval_nat_numeral)
    also have "\<dots> = ?s5"
      using that f5 j5 bt by (simp add: wstep_def Let_def)
    finally show ?thesis .
  qed
  have through: "wpc (jthreads ((wstep t ^^ 8) s) t) = blk_return (jthreads s t)
              \<and> thread_state (jthreads ((wstep t ^^ 8) s) t) = thread_state (jthreads s t)
              \<and> safepoint_id (jthreads ((wstep t ^^ 8) s) t) = 0
              \<and> \<not> fatal_error ((wstep t ^^ 8) s)"
    if "barrier_tag s \<noteq> ucast (safepoint_counter s)"
  proof -
    have 8: "(wstep t ^^ 8) s = (wstep t ^^ 3) ?s5"
      by (simp add: eval_nat_numeral)
    have "wpc (jthreads ?s5 t) = B_restore_state"
      using that j5(3) by simp
    from block_from_barrier [OF f5 this] j5 show ?thesis
      unfolding 8 by simp
  qed
  show ?thesis
    using t5 j5(1-3) parked through by blast
qed

lemma stale_poll_state:
  "\<not> fatal_error (sp_run stale_poll native_ready)"
  "wpc (jthreads (sp_run stale_poll native_ready) 0) = B_entry"
  "\<not> is_terminated (jthreads (sp_run stale_poll native_ready) 0)"
  "thread_state (jthreads (sp_run stale_poll native_ready) 0) = thread_in_native_trans"
  "safepoint_counter (sp_run stale_poll native_ready) = 2"
  "barrier_tag (sp_run stale_poll native_ready) = 0"
  "blk_return (jthreads (sp_run stale_poll native_ready) 0) = W_native_exit"
  "sp_state (sp_run stale_poll native_ready) = not_synchronized"
  by (simp_all add: stale_poll_def native_ready_def sp_eval replicate_numeral upt_conv_Cons)

text \<open>The theorem at the thread that comes back from native code after the safepoint.\<close>

theorem block_records_any_generation_witness:
  "\<not> fatal_error (sp_run stale_poll native_ready)
   \<and> wpc (jthreads (sp_run stale_poll native_ready) 0) = B_entry
   \<and> \<not> is_terminated (jthreads (sp_run stale_poll native_ready) 0)
   \<and> block_state_ok (thread_state (jthreads (sp_run stale_poll native_ready) 0))
   \<and> barrier_tag (sp_run stale_poll native_ready)
       \<noteq> ucast (safepoint_counter (sp_run stale_poll native_ready))
   \<and> safepoint_id (jthreads ((wstep 0 ^^ 5) (sp_run stale_poll native_ready)) 0) = 2
   \<and> thread_state (jthreads ((wstep 0 ^^ 5) (sp_run stale_poll native_ready)) 0) = thread_blocked
   \<and> wpc (jthreads ((wstep 0 ^^ 8) (sp_run stale_poll native_ready)) 0) = W_native_exit
   \<and> thread_state (jthreads ((wstep 0 ^^ 8) (sp_run stale_poll native_ready)) 0)
       = thread_in_native_trans
   \<and> safepoint_id (jthreads ((wstep 0 ^^ 8) (sp_run stale_poll native_ready)) 0) = 0"
proof -
  let ?s = "sp_run stale_poll native_ready"
  have h4: "block_state_ok (thread_state (jthreads ?s 0))"
    by (simp add: stale_poll_state block_state_ok_def)
  have h5: "barrier_tag ?s \<noteq> ucast (safepoint_counter ?s)"
    by (simp add: stale_poll_state)
  from block_records_any_generation [OF stale_poll_state(1,2,3) h4] h5 h4
  show ?thesis
    by (simp add: stale_poll_state del: funpow.simps)
qed

text \<open>
  Against C2 as the spec has it ("if the counter is not odd, \<open>block\<close> returns at once"):
  the counter is 2 when the thread enters \<open>block\<close>, and yet the thread records 2 as its
  safepoint id, becomes \<open>thread_blocked\<close> and calls \<open>wait(2)\<close>.
\<close>

theorem block_stale_poll_counterexample:
  "wpc (jthreads (sp_run stale_poll native_ready) 0) = B_entry
   \<and> safepoint_counter (sp_run stale_poll native_ready) = 2
   \<and> even (safepoint_counter (sp_run stale_poll native_ready))
   \<and> trace ((wstep 0 ^^ 5) (sp_run stale_poll native_ready))
       = trace (sp_run stale_poll native_ready)
         @ [Ev_set_safepoint_id 0 2, Ev_set_thread_state 0 thread_blocked, Ev_barrier_wait 0 2]
   \<and> safepoint_id (jthreads ((wstep 0 ^^ 5) (sp_run stale_poll native_ready)) 0) = 2
   \<and> thread_state (jthreads ((wstep 0 ^^ 5) (sp_run stale_poll native_ready)) 0) = thread_blocked"
proof -
  let ?s = "sp_run stale_poll native_ready"
  have h4: "block_state_ok (thread_state (jthreads ?s 0))"
    by (simp add: stale_poll_state block_state_ok_def)
  have e: "even (safepoint_counter ?s)"
    by (simp add: stale_poll_state)
  show ?thesis
    unfolding block_to_barrier [OF stale_poll_state(1,2,3) h4]
    using e by (simp add: stale_poll_state emit_def upd_jt_def)
qed

subsection \<open>The spin loop of \<open>synchronize_threads\<close>\<close>
























section \<open>Properties of the safepoint cleanup\<close>

subsection \<open>The events of a subtask in a trace\<close>

lemma winners_append: "winners t (es @ fs) = winners t es @ winners t fs"
  by (induction t es rule: winners.induct) simp_all

lemma blocks_run_append: "blocks_run t (es @ fs) = blocks_run t es @ blocks_run t fs"
  by (induction t es rule: blocks_run.induct) simp_all

lemma works_done_append: "works_done t (es @ fs) = works_done t es @ works_done t fs"
  by (induction t es rule: works_done.induct) simp_all

lemmas cleanup_trace_append = winners_append blocks_run_append works_done_append

lemma pc_index_after_task: "pc_index (after_task t) = 3 + 2 * task_index t"
  by (cases t) simp_all

lemma after_task_not_block: "after_task t \<noteq> CL_block u"
  by (cases t) simp_all

lemma task_index_inj: "task_index t = task_index u \<Longrightarrow> t = u"
  by (cases t; cases u) simp_all

lemma does_work_update:
  "does_work (s\<lparr>cleanup_trace := tr\<rparr>) t = does_work s t"
  "does_work (s\<lparr>worker_pc := p\<rparr>) t = does_work s t"
  "does_work (s\<lparr>claimed := c\<rparr>) t = does_work s t"
  "does_work (s\<lparr>threads_completed := k\<rparr>) t = does_work s t"
  by (cases t; simp)+

subsection \<open>One step at each program point of \<open>work\<close>\<close>

lemma work_step_absent: "num_workers s \<le> w \<Longrightarrow> work_step w s = s"
  by (simp add: work_step_def)

lemma work_step_threads_do:
  assumes "w < num_workers s" and "worker_pc s w = CL_threads_do"
  shows "work_step w s
     = s\<lparr>worker_pc := (worker_pc s)(w := CL_claim SAFEPOINT_CLEANUP_DEFLATE_MONITORS),
         cleanup_trace := cleanup_trace s @ [Ev_threads_do w]\<rparr>"
  using assms by (simp add: work_step_def set_worker_pc_def cl_emit_def)

lemma work_step_claim:
  assumes "w < num_workers s" and "worker_pc s w = CL_claim u"
  shows "work_step w s
     = s\<lparr>claimed := (claimed s)(u := True),
         worker_pc := (worker_pc s)(w := (if claimed s u then after_task u else CL_block u)),
         cleanup_trace := cleanup_trace s @ [Ev_try_claim w u (\<not> claimed s u)]\<rparr>"
  using assms by (simp add: work_step_def set_worker_pc_def cl_emit_def try_claim_task_def)

lemma work_step_block:
  assumes "w < num_workers s" and "worker_pc s w = CL_block u"
  shows "work_step w s
     = s\<lparr>worker_pc := (worker_pc s)(w := after_task u),
         cleanup_trace := cleanup_trace s @ Ev_block w u # (if does_work s u then [Ev_work w u] else [])\<rparr>"
  using assms
  by (simp add: work_step_def set_worker_pc_def cl_emit_def claimed_block_def Let_def
      does_work_update)

lemma work_step_completed:
  assumes "w < num_workers s" and "worker_pc s w = CL_all_tasks_completed"
  shows "work_step w s
     = s\<lparr>threads_completed := threads_completed s + 1,
         worker_pc := (worker_pc s)(w := CL_done),
         cleanup_trace := cleanup_trace s @ [Ev_completed w]\<rparr>"
  using assms by (simp add: work_step_def set_worker_pc_def cl_emit_def all_tasks_completed_def)

lemma work_step_done: "worker_pc s w = CL_done \<Longrightarrow> work_step w s = s"
  by (simp add: work_step_def)

lemma passed_invD:
  "passed_inv s t \<Longrightarrow> v < num_workers s \<Longrightarrow> 1 + 2 * task_index t < pc_index (worker_pc s v)
   \<Longrightarrow> claimed s t"
  by (auto simp: passed_inv_def)

lemma passed_inv_step:
  assumes "passed_inv s t"
  shows "passed_inv (work_step w s) t"
proof (cases "w < num_workers s")
  case False
  then show ?thesis using assms by (simp add: work_step_absent)
next
  case w: True
  note old = passed_invD [OF assms]
  show ?thesis
  proof (cases "worker_pc s w")
    case CL_threads_do
    show ?thesis
      unfolding work_step_threads_do [OF w CL_threads_do] passed_inv_def
    proof (intro ballI impI)
      fix v
      assume "v \<in> {0 ..< num_workers (s\<lparr>worker_pc := (worker_pc s)
                (w := CL_claim SAFEPOINT_CLEANUP_DEFLATE_MONITORS),
              cleanup_trace := cleanup_trace s @ [Ev_threads_do w]\<rparr>)}"
        and "1 + 2 * task_index t
          < pc_index (worker_pc (s\<lparr>worker_pc := (worker_pc s)
                (w := CL_claim SAFEPOINT_CLEANUP_DEFLATE_MONITORS),
              cleanup_trace := cleanup_trace s @ [Ev_threads_do w]\<rparr>) v)"
      then have "v < num_workers s" "v \<noteq> w" "1 + 2 * task_index t < pc_index (worker_pc s v)"
        by (auto split: if_splits)
      then show "claimed (s\<lparr>worker_pc := (worker_pc s)
                (w := CL_claim SAFEPOINT_CLEANUP_DEFLATE_MONITORS),
              cleanup_trace := cleanup_trace s @ [Ev_threads_do w]\<rparr>) t"
        using old by simp
    qed
  next
    case (CL_claim u)
    let ?s' = "s\<lparr>claimed := (claimed s)(u := True),
         worker_pc := (worker_pc s)(w := (if claimed s u then after_task u else CL_block u)),
         cleanup_trace := cleanup_trace s @ [Ev_try_claim w u (\<not> claimed s u)]\<rparr>"
    have lower: "claimed s t" if "task_index t < task_index u"
      using old [OF w] that CL_claim by simp
    show ?thesis
      unfolding work_step_claim [OF w CL_claim] passed_inv_def
    proof (intro ballI impI)
      fix v
      assume v: "v \<in> {0 ..< num_workers ?s'}"
        and p: "1 + 2 * task_index t < pc_index (worker_pc ?s' v)"
      show "claimed ?s' t"
      proof (cases "v = w")
        case True
        then have "task_index t \<le> task_index u"
          using p by (simp add: pc_index_after_task split: if_splits)
        then consider "task_index t < task_index u" | "t = u"
          using task_index_inj [of t u] by linarith
        then show ?thesis
          using lower by cases simp_all
      next
        case False
        then have "claimed s t"
          using v p old [of v] by simp
        then show ?thesis by simp
      qed
    qed
  next
    case (CL_block u)
    let ?s' = "s\<lparr>worker_pc := (worker_pc s)(w := after_task u),
         cleanup_trace := cleanup_trace s @ Ev_block w u # (if does_work s u then [Ev_work w u] else [])\<rparr>"
    have lower: "claimed s t" if "task_index t \<le> task_index u"
      using old [OF w] that CL_block by simp
    show ?thesis
      unfolding work_step_block [OF w CL_block] passed_inv_def
    proof (intro ballI impI)
      fix v
      assume v: "v \<in> {0 ..< num_workers ?s'}"
        and p: "1 + 2 * task_index t < pc_index (worker_pc ?s' v)"
      show "claimed ?s' t"
      proof (cases "v = w")
        case True
        then have "task_index t \<le> task_index u"
          using p by (simp add: pc_index_after_task)
        then show ?thesis
          using lower by simp
      next
        case False
        then have "claimed s t"
          using v p old [of v] by simp
        then show ?thesis by simp
      qed
    qed
  next
    case CL_all_tasks_completed
    have "1 + 2 * task_index t < 15"
      by (cases t) simp_all
    then have "claimed s t"
      using old [OF w] CL_all_tasks_completed by simp
    then show ?thesis
      unfolding work_step_completed [OF w CL_all_tasks_completed] passed_inv_def by simp
  next
    case CL_done
    then show ?thesis using assms by (simp add: work_step_done)
  qed
qed

lemma work_inv_step:
  assumes "work_inv s t"
  shows "work_inv (work_step w s) t"
proof (cases "w < num_workers s")
  case False
  then show ?thesis using assms by (simp add: work_step_absent)
next
  case w: True
  show ?thesis
  proof (cases "worker_pc s w")
    case CL_threads_do
    show ?thesis
      using assms unfolding work_step_threads_do [OF w CL_threads_do] work_inv_def
      by (simp add: cleanup_trace_append does_work_update)
  next
    case (CL_claim u)
    show ?thesis
      using assms unfolding work_step_claim [OF w CL_claim] work_inv_def
      by (simp add: cleanup_trace_append does_work_update)
  next
    case (CL_block u)
    show ?thesis
      using assms unfolding work_step_block [OF w CL_block] work_inv_def
      by (simp add: cleanup_trace_append does_work_update)
  next
    case CL_all_tasks_completed
    show ?thesis
      using assms unfolding work_step_completed [OF w CL_all_tasks_completed] work_inv_def
      by (simp add: cleanup_trace_append does_work_update)
  next
    case CL_done
    then show ?thesis using assms by (simp add: work_step_done)
  qed
qed

subsection \<open>A subtask is claimed once\<close>

lemma winners_try_claim:
  "winners t [Ev_try_claim w u b] = (if b \<and> u = t then [w] else [])"
  by (cases b) simp_all

lemma claim_inv_cong:
  assumes "claim_inv s t" and "claimed s' t = claimed s t"
    and "winners t (cleanup_trace s') = winners t (cleanup_trace s)"
    and "blocks_run t (cleanup_trace s') = blocks_run t (cleanup_trace s)"
    and "num_workers s' = num_workers s"
    and "\<And>u. (worker_pc s' u = CL_block t) = (worker_pc s u = CL_block t)"
  shows "claim_inv s' t"
  using assms by (simp add: claim_inv_def)

lemma claim_invD:
  assumes "claim_inv s t"
  shows "\<not> claimed s t \<Longrightarrow> winners t (cleanup_trace s) = []"
    and "claimed s t \<Longrightarrow> length (winners t (cleanup_trace s)) = 1"
    and "u < num_workers s \<Longrightarrow> worker_pc s u = CL_block t \<Longrightarrow>
           winners t (cleanup_trace s) = [u] \<and> blocks_run t (cleanup_trace s) = []"
    and "(\<And>u. u < num_workers s \<Longrightarrow> worker_pc s u \<noteq> CL_block t) \<Longrightarrow>
           blocks_run t (cleanup_trace s) = winners t (cleanup_trace s)"
    and "x \<in> set (winners t (cleanup_trace s)) \<Longrightarrow> x < num_workers s"
proof -
  note a = assms [unfolded claim_inv_def]
  show "\<not> claimed s t \<Longrightarrow> winners t (cleanup_trace s) = []"
    using a by blast
  show "claimed s t \<Longrightarrow> length (winners t (cleanup_trace s)) = 1"
    using a by blast
  show "u < num_workers s \<Longrightarrow> worker_pc s u = CL_block t \<Longrightarrow>
           winners t (cleanup_trace s) = [u] \<and> blocks_run t (cleanup_trace s) = []"
    using a by simp
  show "x \<in> set (winners t (cleanup_trace s)) \<Longrightarrow> x < num_workers s"
    using a by blast
  assume "\<And>u. u < num_workers s \<Longrightarrow> worker_pc s u \<noteq> CL_block t"
  then have "\<forall>u \<in> {0 ..< num_workers s}. worker_pc s u \<noteq> CL_block t"
    by simp
  then show "blocks_run t (cleanup_trace s) = winners t (cleanup_trace s)"
    using a by blast
qed

lemma no_claim_in_work:
  "winners t (if c then [Ev_work w u] else []) = []"
  "blocks_run t (if c then [Ev_work w u] else []) = []"
  by simp_all

lemma claim_invI:
  assumes "\<not> claimed s t \<Longrightarrow> winners t (cleanup_trace s) = []"
    and "claimed s t \<Longrightarrow> length (winners t (cleanup_trace s)) = 1"
    and "\<And>u. u < num_workers s \<Longrightarrow> worker_pc s u = CL_block t \<Longrightarrow>
           winners t (cleanup_trace s) = [u] \<and> blocks_run t (cleanup_trace s) = []"
    and "\<forall>u. u < num_workers s \<longrightarrow> worker_pc s u \<noteq> CL_block t \<Longrightarrow>
           blocks_run t (cleanup_trace s) = winners t (cleanup_trace s)"
    and "\<And>x. x \<in> set (winners t (cleanup_trace s)) \<Longrightarrow> x < num_workers s"
  shows "claim_inv s t"
  unfolding claim_inv_def
proof (intro conjI impI ballI)
  assume "\<forall>u \<in> {0 ..< num_workers s}. worker_pc s u \<noteq> CL_block t"
  then have "\<forall>u. u < num_workers s \<longrightarrow> worker_pc s u \<noteq> CL_block t"
    by simp
  then show "blocks_run t (cleanup_trace s) = winners t (cleanup_trace s)"
    by (rule assms(4))
qed (use assms(1,2,3,5) in simp_all)

lemma claim_inv_win:
  assumes inv: "claim_inv s t" and w: "w < num_workers s" and n: "\<not> claimed s t"
  shows "claim_inv (s\<lparr>claimed := (claimed s)(t := True),
         worker_pc := (worker_pc s)(w := CL_block t),
         cleanup_trace := cleanup_trace s @ [Ev_try_claim w t True]\<rparr>) t"
proof -
  have e: "winners t (cleanup_trace s) = []"
    using claim_invD(1) [OF inv n] .
  have nb: "worker_pc s u \<noteq> CL_block t" if "u < num_workers s" for u
    using claim_invD(3) [OF inv that] e by auto
  have b: "blocks_run t (cleanup_trace s) = []"
    using claim_invD(4) [OF inv nb] e by simp
  let ?s' = "s\<lparr>claimed := (claimed s)(t := True),
         worker_pc := (worker_pc s)(w := CL_block t),
         cleanup_trace := cleanup_trace s @ [Ev_try_claim w t True]\<rparr>"
  have q: "u = w" if "u < num_workers s" "worker_pc ?s' u = CL_block t" for u
    using that nb [of u] by (cases "u = w") simp_all
  show ?thesis
  proof (rule claim_invI)
    show "length (winners t (cleanup_trace ?s')) = 1"
      by (simp add: cleanup_trace_append e)
    show "winners t (cleanup_trace ?s') = [u] \<and> blocks_run t (cleanup_trace ?s') = []"
      if "u < num_workers ?s'" "worker_pc ?s' u = CL_block t" for u
    proof -
      have "u = w"
        using that by (intro q) simp_all
      then show ?thesis
        by (simp add: cleanup_trace_append e b)
    qed
    show "blocks_run t (cleanup_trace ?s') = winners t (cleanup_trace ?s')"
      if "\<forall>u. u < num_workers ?s' \<longrightarrow> worker_pc ?s' u \<noteq> CL_block t"
      using that [rule_format, of w] w by simp
    show "x < num_workers ?s'" if "x \<in> set (winners t (cleanup_trace ?s'))" for x
      using that w by (simp add: cleanup_trace_append e)
  qed simp
qed

lemma claim_inv_block:
  assumes inv: "claim_inv s t" and w: "w < num_workers s" and pc: "worker_pc s w = CL_block t"
  shows "claim_inv (s\<lparr>worker_pc := (worker_pc s)(w := after_task t),
         cleanup_trace := cleanup_trace s
           @ Ev_block w t # (if does_work s t then [Ev_work w t] else [])\<rparr>) t"
proof -
  have e: "winners t (cleanup_trace s) = [w]" and b: "blocks_run t (cleanup_trace s) = []"
    using claim_invD(3) [OF inv w pc] by simp_all
  have c: "claimed s t"
    using claim_invD(1) [OF inv] e by auto
  have nb: "u = w" if "u < num_workers s" "worker_pc s u = CL_block t" for u
    using claim_invD(3) [OF inv that] e by simp
  let ?s' = "s\<lparr>worker_pc := (worker_pc s)(w := after_task t),
         cleanup_trace := cleanup_trace s
           @ Ev_block w t # (if does_work s t then [Ev_work w t] else [])\<rparr>"
  have q: "worker_pc ?s' u \<noteq> CL_block t" if "u < num_workers s" for u
    using that nb [of u] by (cases "u = w") (auto simp: after_task_not_block)
  show ?thesis
  proof (rule claim_invI)
    show "length (winners t (cleanup_trace ?s')) = 1"
      by (simp add: cleanup_trace_append no_claim_in_work e)
    show "winners t (cleanup_trace ?s') = [u] \<and> blocks_run t (cleanup_trace ?s') = []"
      if "u < num_workers ?s'" "worker_pc ?s' u = CL_block t" for u
      using q [of u] that by simp
    show "blocks_run t (cleanup_trace ?s') = winners t (cleanup_trace ?s')"
      by (simp add: cleanup_trace_append no_claim_in_work e b)
    show "x < num_workers ?s'" if "x \<in> set (winners t (cleanup_trace ?s'))" for x
      using that w by (simp add: cleanup_trace_append no_claim_in_work e)
  qed (simp add: c)
qed

lemma claim_inv_step:
  assumes "claim_inv s t"
  shows "claim_inv (work_step w s) t"
proof (cases "w < num_workers s")
  case False
  then show ?thesis using assms by (simp add: work_step_absent)
next
  case w: True
  show ?thesis
  proof (cases "worker_pc s w")
    case CL_threads_do
    show ?thesis
      unfolding work_step_threads_do [OF w CL_threads_do]
      by (rule claim_inv_cong [OF assms]) (simp_all add: cleanup_trace_append CL_threads_do)
  next
    case (CL_claim u)
    show ?thesis
    proof (cases "u = t \<and> \<not> claimed s t")
      case True
      then have n: "\<not> claimed s t" and pc: "worker_pc s w = CL_claim t"
        using CL_claim by simp_all
      show ?thesis
        unfolding work_step_claim [OF w pc] using claim_inv_win [OF assms w n] n by simp
    next
      case False
      show ?thesis
        unfolding work_step_claim [OF w CL_claim]
        by (rule claim_inv_cong [OF assms])
           (use False in \<open>auto simp: cleanup_trace_append winners_try_claim CL_claim
              after_task_not_block\<close>)
    qed
  next
    case (CL_block u)
    show ?thesis
    proof (cases "u = t")
      case True
      then have pc: "worker_pc s w = CL_block t"
        using CL_block by simp
      show ?thesis
        unfolding work_step_block [OF w pc] by (rule claim_inv_block [OF assms w pc])
    next
      case False
      show ?thesis
        unfolding work_step_block [OF w CL_block]
        by (rule claim_inv_cong [OF assms])
           (use False in \<open>auto simp: cleanup_trace_append no_claim_in_work CL_block
              after_task_not_block\<close>)
    qed
  next
    case CL_all_tasks_completed
    show ?thesis
      unfolding work_step_completed [OF w CL_all_tasks_completed]
      by (rule claim_inv_cong [OF assms]) (simp_all add: cleanup_trace_append CL_all_tasks_completed)
  next
    case CL_done
    then show ?thesis using assms by (simp add: work_step_done)
  qed
qed

lemma cleanup_run_inv:
  assumes "passed_inv s t" and "work_inv s t" and "claim_inv s t"
  shows "passed_inv (cleanup_run sch s) t \<and> work_inv (cleanup_run sch s) t
       \<and> claim_inv (cleanup_run sch s) t"
  using assms
  by (induction sch arbitrary: s) (simp_all add: passed_inv_step work_inv_step claim_inv_step)

lemma task_inv_init:
  "passed_inv (ParallelSPCleanupTask n sy st) t" "work_inv (ParallelSPCleanupTask n sy st) t"
  "claim_inv (ParallelSPCleanupTask n sy st) t"
  by (simp_all add: passed_inv_def work_inv_def claim_inv_def ParallelSPCleanupTask_def)

lemma work_step_frame:
  "num_workers (work_step w s) = num_workers s
   \<and> symbol_table_needs_rehashing (work_step w s) = symbol_table_needs_rehashing s
   \<and> string_table_needs_rehashing (work_step w s) = string_table_needs_rehashing s"
proof (cases "w < num_workers s")
  case False
  then show ?thesis by (simp add: work_step_absent)
next
  case w: True
  show ?thesis
  proof (cases "worker_pc s w")
    case CL_threads_do
    show ?thesis unfolding work_step_threads_do [OF w CL_threads_do] by simp
  next
    case (CL_claim u)
    show ?thesis unfolding work_step_claim [OF w CL_claim] by simp
  next
    case (CL_block u)
    show ?thesis unfolding work_step_block [OF w CL_block] by simp
  next
    case CL_all_tasks_completed
    show ?thesis unfolding work_step_completed [OF w CL_all_tasks_completed] by simp
  next
    case CL_done
    then show ?thesis by (simp add: work_step_done)
  qed
qed

lemma cleanup_run_frame:
  "num_workers (cleanup_run sch s) = num_workers s"
  "symbol_table_needs_rehashing (cleanup_run sch s) = symbol_table_needs_rehashing s"
  "string_table_needs_rehashing (cleanup_run sch s) = string_table_needs_rehashing s"
  by (induction sch arbitrary: s) (simp_all add: work_step_frame)

subsection \<open>Every worker comes to the end of \<open>work\<close>\<close>

lemma pc_index_le: "pc_index p \<le> 16"
proof (cases p)
  case (CL_claim t)
  then show ?thesis by (cases t) simp_all
next
  case (CL_block t)
  then show ?thesis by (cases t) simp_all
qed simp_all

lemma pc_index_done: "pc_index p = 16 \<Longrightarrow> p = CL_done"
proof (cases p)
  case (CL_claim t)
  then show "pc_index p = 16 \<Longrightarrow> p = CL_done" by (cases t) simp_all
next
  case (CL_block t)
  then show "pc_index p = 16 \<Longrightarrow> p = CL_done" by (cases t) simp_all
qed simp_all

lemma work_step_other: "u \<noteq> w \<Longrightarrow> worker_pc (work_step w s) u = worker_pc s u"
proof (cases "w < num_workers s")
  case False
  then show ?thesis by (simp add: work_step_absent)
next
  case w: True
  assume "u \<noteq> w"
  then show ?thesis
  proof (cases "worker_pc s w")
    case CL_threads_do
    show ?thesis unfolding work_step_threads_do [OF w CL_threads_do] using \<open>u \<noteq> w\<close> by simp
  next
    case (CL_claim t)
    show ?thesis unfolding work_step_claim [OF w CL_claim] using \<open>u \<noteq> w\<close> by simp
  next
    case (CL_block t)
    show ?thesis unfolding work_step_block [OF w CL_block] using \<open>u \<noteq> w\<close> by simp
  next
    case CL_all_tasks_completed
    show ?thesis unfolding work_step_completed [OF w CL_all_tasks_completed] using \<open>u \<noteq> w\<close> by simp
  next
    case CL_done
    then show ?thesis by (simp add: work_step_done)
  qed
qed

lemma work_step_progress:
  assumes w: "w < num_workers s"
  shows "min 16 (Suc (pc_index (worker_pc s w))) \<le> pc_index (worker_pc (work_step w s) w)"
proof (cases "worker_pc s w")
  case CL_threads_do
  show ?thesis unfolding work_step_threads_do [OF w CL_threads_do] by (simp add: CL_threads_do)
next
  case (CL_claim t)
  show ?thesis unfolding work_step_claim [OF w CL_claim]
    by (auto simp: CL_claim pc_index_after_task)
next
  case (CL_block t)
  show ?thesis unfolding work_step_block [OF w CL_block]
    by (auto simp: CL_block pc_index_after_task)
next
  case CL_all_tasks_completed
  show ?thesis unfolding work_step_completed [OF w CL_all_tasks_completed]
    by (simp add: CL_all_tasks_completed)
next
  case CL_done
  then show ?thesis by (simp add: work_step_done)
qed

lemma cleanup_run_progress:
  assumes "w < num_workers s"
  shows "min 16 (pc_index (worker_pc s w) + count_list sch w)
           \<le> pc_index (worker_pc (cleanup_run sch s) w)"
  using assms
proof (induction sch arbitrary: s)
  case Nil
  then show ?case by simp
next
  case (Cons a sch)
  have n: "w < num_workers (work_step a s)"
    using Cons.prems work_step_frame [of a s] by simp
  note ih = Cons.IH [OF n]
  show ?case
  proof (cases "a = w")
    case True
    have "min 16 (Suc (pc_index (worker_pc s w))) \<le> pc_index (worker_pc (work_step w s) w)"
      using work_step_progress [OF Cons.prems] .
    then show ?thesis
      using ih True pc_index_le [of "worker_pc (cleanup_run sch (work_step w s)) w"] by simp
  next
    case False
    then show ?thesis
      using ih work_step_other [of w a s] by simp
  qed
qed

lemma cleanup_run_finishes:
  assumes "w < num_workers s" and "16 \<le> count_list sch w"
  shows "worker_pc (cleanup_run sch s) w = CL_done"
proof -
  have "16 \<le> pc_index (worker_pc (cleanup_run sch s) w)"
    using cleanup_run_progress [OF assms(1), of sch] assms(2) by simp
  then show ?thesis
    using pc_index_le [of "worker_pc (cleanup_run sch s) w"] by (intro pc_index_done) simp
qed

subsection \<open>Each subtask once in each cleanup\<close>

lemma num_workers_do_cleanup:
  "num_workers (do_cleanup_tasks cw sy st sch) = (case cw of Some k \<Rightarrow> k | None \<Rightarrow> 1)"
  by (cases cw)
     (simp_all add: do_cleanup_tasks_def cleanup_run_frame ParallelSPCleanupTask_def)

lemma do_cleanup_tasks_inv:
  "passed_inv (do_cleanup_tasks cw sy st sch) t \<and> work_inv (do_cleanup_tasks cw sy st sch) t
   \<and> claim_inv (do_cleanup_tasks cw sy st sch) t"
  by (cases cw) (simp_all add: do_cleanup_tasks_def cleanup_run_inv task_inv_init)

lemma do_cleanup_tasks_finishes:
  assumes "w < num_workers (do_cleanup_tasks cw sy st sch)" and "16 \<le> count_list sch w"
  shows "worker_pc (do_cleanup_tasks cw sy st sch) w = CL_done"
proof (cases cw)
  case None
  have "w < num_workers (ParallelSPCleanupTask 1 sy st)"
    using assms(1) by (simp add: num_workers_do_cleanup None ParallelSPCleanupTask_def)
  then show ?thesis
    using assms(2) by (simp add: do_cleanup_tasks_def None cleanup_run_finishes)
next
  case (Some k)
  have "w < num_workers (ParallelSPCleanupTask k sy st)"
    using assms(1) by (simp add: num_workers_do_cleanup Some ParallelSPCleanupTask_def)
  then show ?thesis
    using assms(2) by (simp add: do_cleanup_tasks_def Some cleanup_run_finishes)
qed

text \<open>
  C7.  In one call of \<open>do_cleanup_tasks\<close>, with a gang of any number of workers or
  serially on the VM thread, and whatever the order of the steps of the workers, for each
  subtask:
  \<^item> at every moment at most one claim of it has succeeded, only a worker whose claim
    succeeded has entered its claimed block, and the function of the subtask has been called
    only from that block;
  \<^item> every worker that takes sixteen steps comes to the end of \<open>work\<close>;
  \<^item> when there is a worker and all the workers have come to the end of \<open>work\<close>, exactly
    one claim has succeeded, the worker that made it has run the claimed block once, and
    nobody else has; the function of the subtask has been called once by that worker, except
    that a rehash subtask whose table does not need rehashing calls nothing.
\<close>

theorem cleanup_single_claim:
  assumes "s = do_cleanup_tasks cleanup_workers sy st sch"
  shows "num_workers s = (case cleanup_workers of Some k \<Rightarrow> k | None \<Rightarrow> 1)
    \<and> length (winners t (cleanup_trace s)) \<le> 1
    \<and> length (blocks_run t (cleanup_trace s)) \<le> length (winners t (cleanup_trace s))
    \<and> length (works_done t (cleanup_trace s)) \<le> length (blocks_run t (cleanup_trace s))
    \<and> ((\<forall>w \<in> {0 ..< num_workers s}. 16 \<le> count_list sch w) \<longrightarrow>
          (\<forall>w \<in> {0 ..< num_workers s}. worker_pc s w = CL_done))
    \<and> (0 < num_workers s \<and> (\<forall>w \<in> {0 ..< num_workers s}. worker_pc s w = CL_done) \<longrightarrow>
          (\<exists>w \<in> {0 ..< num_workers s}.
              winners t (cleanup_trace s) = [w] \<and> blocks_run t (cleanup_trace s) = [w]
              \<and> works_done t (cleanup_trace s) = (if does_work s t then [w] else [])))"
proof -
  have inv: "passed_inv s t" "work_inv s t" "claim_inv s t"
    unfolding assms using do_cleanup_tasks_inv [of cleanup_workers sy st sch t] by simp_all
  note ci = claim_invD [OF inv(3)]
  have n: "num_workers s = (case cleanup_workers of Some k \<Rightarrow> k | None \<Rightarrow> 1)"
    unfolding assms by (rule num_workers_do_cleanup)
  have w1: "length (winners t (cleanup_trace s)) \<le> 1"
    using ci(1,2) by (cases "claimed s t") simp_all
  have b1: "length (blocks_run t (cleanup_trace s)) \<le> length (winners t (cleanup_trace s))"
  proof (cases "\<exists>u. u < num_workers s \<and> worker_pc s u = CL_block t")
    case True
    then obtain u where "u < num_workers s" "worker_pc s u = CL_block t" by blast
    from ci(3) [OF this] show ?thesis by simp
  next
    case False
    then have "blocks_run t (cleanup_trace s) = winners t (cleanup_trace s)"
      by (intro ci(4)) blast
    then show ?thesis by simp
  qed
  have d1: "length (works_done t (cleanup_trace s)) \<le> length (blocks_run t (cleanup_trace s))"
    using inv(2) by (simp add: work_inv_def)
  have fin: "\<forall>w \<in> {0 ..< num_workers s}. worker_pc s w = CL_done"
    if "\<forall>w \<in> {0 ..< num_workers s}. 16 \<le> count_list sch w"
    using that do_cleanup_tasks_finishes [of _ cleanup_workers sy st sch] unfolding assms by simp
  have once: "\<exists>w \<in> {0 ..< num_workers s}.
              winners t (cleanup_trace s) = [w] \<and> blocks_run t (cleanup_trace s) = [w]
              \<and> works_done t (cleanup_trace s) = (if does_work s t then [w] else [])"
    if p: "0 < num_workers s" and d: "\<forall>w \<in> {0 ..< num_workers s}. worker_pc s w = CL_done"
  proof -
    have "worker_pc s 0 = CL_done"
      using p d by simp
    moreover have "1 + 2 * task_index t < 16"
      by (cases t) simp_all
    ultimately have c: "claimed s t"
      using passed_invD [OF inv(1) p] by simp
    have nb: "worker_pc s u \<noteq> CL_block t" if "u < num_workers s" for u
      using d that by simp
    have bw: "blocks_run t (cleanup_trace s) = winners t (cleanup_trace s)"
      using nb by (intro ci(4)) blast
    from ci(2) [OF c] obtain w where w: "winners t (cleanup_trace s) = [w]"
      by (cases "winners t (cleanup_trace s)") simp_all
    then have "w < num_workers s"
      using ci(5) [of w] by simp
    then show ?thesis
      using w bw inv(2) by (auto simp: work_inv_def)
  qed
  show ?thesis
    using n w1 b1 d1 fin once by blast
qed

lemmas cleanup_eval = do_cleanup_tasks_def ParallelSPCleanupTask_def work_step_def try_claim_task_def
  all_tasks_completed_def claimed_block_def cl_emit_def set_worker_pc_def Let_def

lemma two_workers_state:
  "16 \<le> count_list two_workers 0" "16 \<le> count_list two_workers 1"
  "winners SAFEPOINT_CLEANUP_STRING_TABLE_REHASH
     (cleanup_trace (do_cleanup_tasks (Some 2) True False two_workers)) = [0]"
  "winners SAFEPOINT_CLEANUP_SYMBOL_TABLE_REHASH
     (cleanup_trace (do_cleanup_tasks (Some 2) True False two_workers)) = [1]"
  "\<not> does_work (do_cleanup_tasks (Some 2) True False two_workers)
       SAFEPOINT_CLEANUP_STRING_TABLE_REHASH"
  "does_work (do_cleanup_tasks (Some 2) True False two_workers)
       SAFEPOINT_CLEANUP_SYMBOL_TABLE_REHASH"
  by (simp_all add: two_workers_def cleanup_eval replicate_numeral)

text \<open>
  The theorem at two workers that take their steps in turn, when only the symbol table needs
  rehashing: worker 0 wins the string-table subtask and rehashes nothing, worker 1 wins the
  symbol-table subtask and rehashes.
\<close>

theorem cleanup_single_claim_witness:
  "num_workers (do_cleanup_tasks (Some 2) True False two_workers) = 2
   \<and> 16 \<le> count_list two_workers 0 \<and> 16 \<le> count_list two_workers 1
   \<and> worker_pc (do_cleanup_tasks (Some 2) True False two_workers) 0 = CL_done
   \<and> worker_pc (do_cleanup_tasks (Some 2) True False two_workers) 1 = CL_done
   \<and> winners SAFEPOINT_CLEANUP_STRING_TABLE_REHASH
        (cleanup_trace (do_cleanup_tasks (Some 2) True False two_workers)) = [0]
   \<and> blocks_run SAFEPOINT_CLEANUP_STRING_TABLE_REHASH
        (cleanup_trace (do_cleanup_tasks (Some 2) True False two_workers)) = [0]
   \<and> works_done SAFEPOINT_CLEANUP_STRING_TABLE_REHASH
        (cleanup_trace (do_cleanup_tasks (Some 2) True False two_workers)) = []
   \<and> winners SAFEPOINT_CLEANUP_SYMBOL_TABLE_REHASH
        (cleanup_trace (do_cleanup_tasks (Some 2) True False two_workers)) = [1]
   \<and> blocks_run SAFEPOINT_CLEANUP_SYMBOL_TABLE_REHASH
        (cleanup_trace (do_cleanup_tasks (Some 2) True False two_workers)) = [1]
   \<and> works_done SAFEPOINT_CLEANUP_SYMBOL_TABLE_REHASH
        (cleanup_trace (do_cleanup_tasks (Some 2) True False two_workers)) = [1]"
proof -
  let ?s = "do_cleanup_tasks (Some 2) True False two_workers"
  note e = two_workers_state
  note t1 = cleanup_single_claim [OF refl, of "Some 2" True False two_workers
      SAFEPOINT_CLEANUP_STRING_TABLE_REHASH]
  note t2 = cleanup_single_claim [OF refl, of "Some 2" True False two_workers
      SAFEPOINT_CLEANUP_SYMBOL_TABLE_REHASH]
  have n: "num_workers ?s = 2"
    using t1 by simp
  have c: "\<forall>w \<in> {0 ..< num_workers ?s}. 16 \<le> count_list two_workers w"
  proof
    fix w
    assume "w \<in> {0 ..< num_workers ?s}"
    then have "w = 0 \<or> w = 1"
      unfolding n by auto
    then show "16 \<le> count_list two_workers w"
      using e(1,2) by auto
  qed
  have d: "\<forall>w \<in> {0 ..< num_workers ?s}. worker_pc ?s w = CL_done"
    using t1 c by blast
  then have d01: "worker_pc ?s 0 = CL_done" "worker_pc ?s 1 = CL_done"
    unfolding n by simp_all
  have p: "0 < num_workers ?s"
    using n by simp
  from t1 p d obtain w where "winners SAFEPOINT_CLEANUP_STRING_TABLE_REHASH (cleanup_trace ?s) = [w]"
    "blocks_run SAFEPOINT_CLEANUP_STRING_TABLE_REHASH (cleanup_trace ?s) = [w]"
    "works_done SAFEPOINT_CLEANUP_STRING_TABLE_REHASH (cleanup_trace ?s)
       = (if does_work ?s SAFEPOINT_CLEANUP_STRING_TABLE_REHASH then [w] else [])"
    by blast
  then have 1: "blocks_run SAFEPOINT_CLEANUP_STRING_TABLE_REHASH (cleanup_trace ?s) = [0]"
    "works_done SAFEPOINT_CLEANUP_STRING_TABLE_REHASH (cleanup_trace ?s) = []"
    using e(3,5) by simp_all
  from t2 p d obtain w where "winners SAFEPOINT_CLEANUP_SYMBOL_TABLE_REHASH (cleanup_trace ?s) = [w]"
    "blocks_run SAFEPOINT_CLEANUP_SYMBOL_TABLE_REHASH (cleanup_trace ?s) = [w]"
    "works_done SAFEPOINT_CLEANUP_SYMBOL_TABLE_REHASH (cleanup_trace ?s)
       = (if does_work ?s SAFEPOINT_CLEANUP_SYMBOL_TABLE_REHASH then [w] else [])"
    by blast
  then have 2: "blocks_run SAFEPOINT_CLEANUP_SYMBOL_TABLE_REHASH (cleanup_trace ?s) = [1]"
    "works_done SAFEPOINT_CLEANUP_SYMBOL_TABLE_REHASH (cleanup_trace ?s) = [1]"
    using e(4,6) by simp_all
  show ?thesis
    using n e d01 1 2 by simp
qed

end
